theory Spec2Isabelle
  imports Complex_Main "HOL-Library.Signed_Division" "HOL-Library.Monad_Syntax"
begin

section \<open>Data model of the solver\<close>

text \<open>
  The development embeds \<^verbatim>\<open>core/Solver.cc\<close> of SATCHUIM, a MiniSat derivative that
  enumerates weighted itemsets. Variables are dense non-negative integers; a literal is
  a variable with a sign bit (\<^verbatim>\<open>mkLit(v, sign)\<close>, \<^verbatim>\<open>sign = true\<close> for the
  negative literal); assignments are three-valued. \<^verbatim>\<open>lit_Undef\<close>, \<^verbatim>\<open>var_Undef\<close> and
  \<^verbatim>\<open>CRef_Undef\<close> are the value \<open>None\<close> of an option type.
\<close>

type_synonym var = nat

datatype lbool = l_True | l_False | l_Undef

datatype lit = mkLit (var: var) (sign: bool)

type_synonym cref = nat

text \<open>The operator \<^verbatim>\<open>~p\<close> on literals.\<close>

definition neg :: "lit \<Rightarrow> lit" where
  "neg p = mkLit (var p) (\<not> sign p)"

text \<open>\<^verbatim>\<open>toInt(p)\<close>, the integer \<^verbatim>\<open>2 * var + sign\<close> that orders literals.\<close>

definition toInt :: "lit \<Rightarrow> nat" where
  "toInt p = 2 * var p + (if sign p then 1 else 0)"

text \<open>\<^verbatim>\<open>lbool(b)\<close>: the truth value of a Boolean.\<close>

definition lbool_of :: "bool \<Rightarrow> lbool" where
  "lbool_of b = (if b then l_True else l_False)"

text \<open>
  A clause of the arena: its literals, the \<^verbatim>\<open>learnt\<close> flag, the mark (1 once the
  clause has been removed) and the activity. A clause handle is its index in the arena;
  \<^verbatim>\<open>ca.free\<close> only accounts for wasted memory and leaves the clause readable, so
  it has no effect here.
\<close>

record clause =
  lits :: "lit list"
  learnt :: bool
  mark :: nat
  c_activity :: real

datatype watcher = Watcher (cref: cref) (blocker: lit)

text \<open>
  The fields of \<^verbatim>\<open>Solver\<close> that the embedded functions read or write. Vectors indexed
  by a variable (\<^verbatim>\<open>assigns\<close>, \<^verbatim>\<open>vardata\<close>, \<^verbatim>\<open>hu_wei\<close>, ...) are total functions,
  \<open>nVars\<close> is their common length; \<^verbatim>\<open>vardata[x]\<close> is the pair of \<open>reason\<close> and
  \<open>level\<close>. The order heap is the list of the variables it holds, \<open>dirties\<close> the
  smudged watch lists.
\<close>

record solver =
  verbosity :: int
  phase_saving :: int
  ok :: bool
  ca :: "clause list"
  clauses :: "cref list"
  learnts :: "cref list"
  watches :: "lit \<Rightarrow> watcher list"
  dirties :: "lit list"
  assigns :: "var \<Rightarrow> lbool"
  reason :: "var \<Rightarrow> cref option"
  level :: "var \<Rightarrow> nat"
  polarity :: "var \<Rightarrow> bool"
  decision :: "var \<Rightarrow> bool"
  activity :: "var \<Rightarrow> real"
  seen :: "var \<Rightarrow> bool"
  hu_wei :: "var \<Rightarrow> int"
  nVars :: nat
  trail :: "lit list"
  trail_lim :: "nat list"
  qhead :: nat
  order_heap :: "var list"
  nbItems :: nat
  nbTrans :: nat
  totalWeight :: int
  min_supp :: int
  items :: "lit list"
  allItems :: "lit list"
  occ :: "var \<Rightarrow> int"
  local_trans :: "var \<Rightarrow> lit list"
  diviser_state :: int
  ind :: nat
  conflicts :: nat
  propagations :: nat
  simpDB_props :: int
  clauses_literals :: int
  learnts_literals :: int
  nbClauses :: nat
  nbModels :: nat
  decisions :: nat
  dec_vars :: nat
  assumptions :: "lit list"

text \<open>
  The inline helpers of \<^verbatim>\<open>Solver.h\<close>, which is not among the sources, are written as
  MiniSat defines them: \<^verbatim>\<open>value(Var)\<close>, \<^verbatim>\<open>value(Lit)\<close> (the assignment of the variable,
  flipped by the sign), \<^verbatim>\<open>decisionLevel()\<close>, \<^verbatim>\<open>newDecisionLevel()\<close> and
  \<^verbatim>\<open>insertVarOrder\<close>.
\<close>

definition value_var :: "solver \<Rightarrow> var \<Rightarrow> lbool" where
  "value_var s x = assigns s x"

definition "value" :: "solver \<Rightarrow> lit \<Rightarrow> lbool" where
  "value s p =
     (case assigns s (var p) of
        l_Undef \<Rightarrow> l_Undef
      | l_True \<Rightarrow> (if sign p then l_False else l_True)
      | l_False \<Rightarrow> (if sign p then l_True else l_False))"

definition decisionLevel :: "solver \<Rightarrow> nat" where
  "decisionLevel s = length (trail_lim s)"

definition newDecisionLevel :: "solver \<Rightarrow> solver" where
  "newDecisionLevel s = s\<lparr>trail_lim := trail_lim s @ [length (trail s)]\<rparr>"

definition insertVarOrder :: "var \<Rightarrow> solver \<Rightarrow> solver" where
  "insertVarOrder x s =
     (if x \<notin> set (order_heap s) \<and> decision s x
      then s\<lparr>order_heap := order_heap s @ [x]\<rparr> else s)"

text \<open>
  The value of an \<^verbatim>\<open>int\<close> after an operation whose exact result is \<open>i\<close>: 32 bits,
  two's complement, wrapping around.
\<close>

definition wrap32 :: "int \<Rightarrow> int" where
  "wrap32 i = (i + 2147483648) mod 4294967296 - 2147483648"

lemma wrap32_id: "- 2147483648 \<le> i \<Longrightarrow> i < 2147483648 \<Longrightarrow> wrap32 i = i"
  by (simp add: wrap32_def)

section \<open>Trail: enqueue and backtrack\<close>

text \<open>
  \<^verbatim>\<open>uncheckedEnqueue(p, from)\<close>. The source asserts \<^verbatim>\<open>value(p) == l_Undef\<close>; the
  assertion is a hypothesis of the theorems that need it. \<^verbatim>\<open>totalWeight\<close> is an
  \<^verbatim>\<open>int\<close>: what is subtracted here, and added in the backtrack loops below, wraps.
\<close>

definition uncheckedEnqueue :: "solver \<Rightarrow> lit \<Rightarrow> cref option \<Rightarrow> solver" where
  "uncheckedEnqueue s p from =
     (let s1 = s\<lparr>assigns := (assigns s)(var p := lbool_of (\<not> sign p)),
                 reason := (reason s)(var p := from),
                 level := (level s)(var p := decisionLevel s),
                 trail := trail s @ [p]\<rparr>
      in if sign p \<and> var p \<ge> nbItems s1 + nbTrans s1
         then s1\<lparr>totalWeight := wrap32 (totalWeight s1 - hu_wei s1 (var p))\<rparr>
         else s1)"

text \<open>
  The body of the loop of \<^verbatim>\<open>cancelUntil\<close> at trail index \<open>c\<close>, and the function: the
  loop runs over the indices from \<^verbatim>\<open>trail.size() - 1\<close> down to \<^verbatim>\<open>trail_lim[level]\<close>.
\<close>

definition cancelUntil_body :: "nat \<Rightarrow> solver \<Rightarrow> solver" where
  "cancelUntil_body c s =
     (let p = trail s ! c;
          x = var p;
          s1 = s\<lparr>assigns := (assigns s)(x := l_Undef)\<rparr>;
          s2 = (if phase_saving s1 > 1 \<or> (phase_saving s1 = 1 \<and> c > last (trail_lim s1))
                then s1\<lparr>polarity := (polarity s1)(x := sign p)\<rparr> else s1);
          s3 = (if sign p \<and> x \<ge> nbItems s2 + nbTrans s2
                then s2\<lparr>totalWeight := wrap32 (totalWeight s2 + hu_wei s2 x)\<rparr> else s2)
      in if x < nbItems s3 then insertVarOrder x s3 else s3)"

definition cancelUntil :: "solver \<Rightarrow> nat \<Rightarrow> solver" where
  "cancelUntil s lvl =
     (if decisionLevel s > lvl
      then let lim = trail_lim s ! lvl;
               s1 = fold cancelUntil_body (rev [lim ..< length (trail s)]) s
           in s1\<lparr>qhead := lim,
                  trail := take lim (trail s1),
                  trail_lim := take lvl (trail_lim s1)\<rparr>
      else s)"

text \<open>\<^verbatim>\<open>cancelAll\<close>: the same loop over the whole trail, without phase saving.\<close>

definition cancelAll_body :: "nat \<Rightarrow> solver \<Rightarrow> solver" where
  "cancelAll_body c s =
     (let p = trail s ! c;
          x = var p;
          s1 = s\<lparr>assigns := (assigns s)(x := l_Undef)\<rparr>;
          s2 = (if sign p \<and> x \<ge> nbItems s1 + nbTrans s1
                then s1\<lparr>totalWeight := wrap32 (totalWeight s1 + hu_wei s1 x)\<rparr> else s1)
      in if x < nbItems s2 then insertVarOrder x s2 else s2)"

definition cancelAll :: "solver \<Rightarrow> solver" where
  "cancelAll s =
     (let s1 = fold cancelAll_body (rev [0 ..< length (trail s)]) s
      in s1\<lparr>qhead := 0, trail := [], trail_lim := []\<rparr>)"

section \<open>Restart schedule\<close>

text \<open>
  \<^verbatim>\<open>luby(y, x)\<close>. The first loop looks for the finite subsequence that holds index
  \<open>x\<close>, the second walks down to the position of \<open>x\<close> in it. Both are loops over
  \<^verbatim>\<open>int\<close>, every result wrapped to 32 bits; \<^verbatim>\<open>>> 1\<close> halves, \<^verbatim>\<open>%\<close> truncates
  (\<open>smod\<close>) and a remainder by zero does not return. \<^verbatim>\<open>pow\<close> of the C library works on
  \<^verbatim>\<open>double\<close> and rounds; it is the parameter \<open>pow\<close>, and \<open>luby\<close> returns
  \<open>pow y seq\<close>. A loop that does not return is the value \<open>None\<close>.
\<close>

partial_function (option) luby_up :: "int \<Rightarrow> int \<Rightarrow> int \<Rightarrow> (int \<times> int) option" where
  "luby_up sz seq x =
     (if sz < wrap32 (x + 1) then luby_up (wrap32 (2 * sz + 1)) (wrap32 (seq + 1)) x
      else Some (sz, seq))"

partial_function (option) luby_down :: "int \<Rightarrow> int \<Rightarrow> int \<Rightarrow> int option" where
  "luby_down sz seq x =
     (if wrap32 (sz - 1) \<noteq> x
      then (if wrap32 (sz - 1) div 2 = 0 then None
            else luby_down (wrap32 (sz - 1) div 2) (wrap32 (seq - 1))
                   (x smod (wrap32 (sz - 1) div 2)))
      else Some seq)"

definition luby :: "(real \<Rightarrow> int \<Rightarrow> real) \<Rightarrow> real \<Rightarrow> int \<Rightarrow> real option" where
  "luby pow y x =
     (case luby_up 1 0 x of
        None \<Rightarrow> None
      | Some (sz, seq) \<Rightarrow>
          (case luby_down sz seq x of
             None \<Rightarrow> None
           | Some seq' \<Rightarrow> Some (pow y seq')))"

text \<open>
  The canonical Luby sequence, by its finite subsequences as the comment above
  \<^verbatim>\<open>luby\<close> lists them: subsequence \<open>n + 1\<close> is subsequence \<open>n\<close> twice, followed by
  \<open>2 ^ (n + 1)\<close>. \<open>luby_exps n\<close> holds the exponents of subsequence \<open>n\<close>, whose
  length is \<open>2 ^ (n + 1) - 1\<close>.
\<close>

fun luby_exps :: "nat \<Rightarrow> nat list" where
  "luby_exps 0 = [0]"
| "luby_exps (Suc n) = luby_exps n @ luby_exps n @ [Suc n]"

lemma length_luby_exps: "Suc (length (luby_exps n)) = 2 ^ (n + 1)"
  by (induction n) simp_all

lemma length_luby_exps_int: "int (length (luby_exps n)) = 2 ^ (n + 1) - 1"
proof -
  have "int (Suc (length (luby_exps n))) = 2 ^ (n + 1)"
    by (simp only: length_luby_exps) simp
  then show ?thesis by simp
qed

lemma luby_exps_prefix:
  "i < length (luby_exps n) \<Longrightarrow> luby_exps (n + d) ! i = luby_exps n ! i"
proof (induction d)
  case 0
  show ?case by simp
next
  case (Suc d)
  have "Suc (length (luby_exps n)) \<le> Suc (length (luby_exps (n + d)))"
    by (simp only: length_luby_exps) simp
  then have "i < length (luby_exps (n + d))" using Suc.prems by simp
  then show ?case using Suc by (simp add: nth_append)
qed

lemma smod_nonneg: "0 \<le> x \<Longrightarrow> 0 < m \<Longrightarrow> x smod m = x mod (m::int)"
  by (simp add: signed_modulo_int_def sgn_if)

lemma pow2_le_31: "k \<le> 30 \<Longrightarrow> (2::int) ^ (k + 1) \<le> 2147483648"
proof -
  assume "k \<le> 30"
  then have "(2::int) ^ (k + 1) \<le> 2 ^ 31" by (intro power_increasing) simp_all
  then show ?thesis by simp
qed

lemma pow2_lt_31: "(2::int) ^ (j + 1) < 2147483648 \<Longrightarrow> j < 30"
proof -
  assume "(2::int) ^ (j + 1) < 2147483648"
  then have "(2::int) ^ (j + 1) < 2 ^ 31" by simp
  then have "j + 1 < 31" by (rule power_less_imp_less_exp [rotated]) simp
  then show ?thesis by simp
qed

lemma luby_down_exps:
  "k \<le> 30 \<Longrightarrow> 0 \<le> x \<Longrightarrow> x < 2 ^ (k + 1) - 1 \<Longrightarrow>
   luby_down (2 ^ (k + 1) - 1) (int k) x = Some (int (luby_exps k ! nat x))"
proof (induction k arbitrary: x)
  case 0
  then have "x = 0" by simp
  then show ?case by (simp add: luby_down.simps wrap32_def)
next
  case (Suc k)
  define m :: int where "m = 2 ^ (k + 1) - 1"
  have len: "int (length (luby_exps k)) = m"
    by (simp only: length_luby_exps_int m_def)
  have "(1::int) \<le> 2 ^ k" by simp
  then have "(1::int) < 2 * 2 ^ k" by linarith
  then have mpos: "0 < m" by (simp add: m_def)
  have big: "(2::int) ^ (Suc k + 1) - 1 = 2 * m + 1" by (simp add: m_def)
  have mle: "2 * m + 1 < 2147483648"
    using pow2_le_31 [OF Suc.prems(1)] unfolding big [symmetric] by linarith
  have w1: "wrap32 (2 * m + 1 - 1) = 2 * m" using mpos mle by (simp add: wrap32_id)
  have w2: "wrap32 (int (Suc k) - 1) = int k" using Suc.prems(1) by (simp add: wrap32_id)
  show ?case
  proof (cases "x = 2 * m")
    case True
    have "nat x = length (luby_exps k @ luby_exps k)"
      using True len by simp
    then have "luby_exps (Suc k) ! nat x = Suc k"
      by (simp add: nth_append)
    with True big w1 show ?thesis by (simp add: luby_down.simps)
  next
    case False
    with Suc.prems big have xlt: "x < 2 * m" by simp
    have r0: "0 \<le> x mod m" and r1: "x mod m < m" using mpos by simp_all
    have step: "luby_down (2 * m + 1) (int (Suc k)) x = luby_down m (int k) (x mod m)"
      using False Suc.prems mpos
      by (subst luby_down.simps) (simp only: w1 w2, simp add: smod_nonneg)
    have idx: "luby_exps (Suc k) ! nat x = luby_exps k ! nat (x mod m)"
    proof (cases "x < m")
      case True
      then have "nat x < length (luby_exps k)" using len Suc.prems by linarith
      moreover have "x mod m = x" using True Suc.prems by simp
      ultimately show ?thesis by (simp add: nth_append)
    next
      case False
      have "(x - m) mod m = x - m"
        using False xlt by (intro mod_pos_pos_trivial) simp_all
      then have m: "x mod m = x - m" by (simp only: minus_mod_self2)
      have n1: "\<not> nat x < length (luby_exps k)" using False len by linarith
      have n2: "nat x - length (luby_exps k) < length (luby_exps k)"
        using xlt len False by linarith
      have n3: "nat x - length (luby_exps k) = nat (x - m)" using len False by linarith
      show ?thesis using n1 n2 n3 m by (simp add: nth_append)
    qed
    have k30: "k \<le> 30" using Suc.prems(1) by simp
    have "luby_down m (int k) (x mod m) = Some (int (luby_exps k ! nat (x mod m)))"
      using Suc.IH [OF k30 r0] r1 by (simp add: m_def)
    then show ?thesis by (simp only: big step idx)
  qed
qed

lemma luby_up_reaches:
  assumes "0 \<le> x" "x < 2147483647"
  shows "j \<le> 30 \<Longrightarrow>
     \<exists>k. k \<le> 30 \<and> luby_up (2 ^ (j + 1) - 1) (int j) x = Some (2 ^ (k + 1) - 1, int k) \<and>
       x < 2 ^ (k + 1) - 1"
proof (induction "nat (x + 2 - 2 ^ (j + 1))" arbitrary: j rule: less_induct)
  case less
  have wx: "wrap32 (x + 1) = x + 1" using assms by (simp add: wrap32_id)
  show ?case
  proof (cases "(2::int) ^ (j + 1) - 1 < x + 1")
    case True
    have p: "(2::int) ^ (Suc j + 1) = 2 * 2 ^ (j + 1)" by simp
    have pos: "(0::int) < 2 ^ (j + 1)" by simp
    then have "nat (x + 2 - 2 ^ (Suc j + 1)) < nat (x + 2 - 2 ^ (j + 1))"
      using True unfolding p by linarith
    moreover have "(2::int) ^ (j + 1) < 2147483648" using True assms by linarith
    then have j29: "j < 30" by (rule pow2_lt_31)
    then have "Suc j \<le> 30" by simp
    ultimately obtain k where
      k: "k \<le> 30" "luby_up (2 ^ (Suc j + 1) - 1) (int (Suc j)) x = Some (2 ^ (k + 1) - 1, int k)"
         "x < 2 ^ (k + 1) - 1"
      using less.hyps by blast
    have e: "2 * ((2::int) ^ (j + 1) - 1) + 1 = 2 ^ (Suc j + 1) - 1" by simp
    have "(2::int) ^ (Suc j + 1) \<le> 2147483648" using j29 by (intro pow2_le_31) simp
    moreover have "(0::int) < 2 ^ (Suc j + 1)" by simp
    ultimately have "wrap32 (2 ^ (Suc j + 1) - 1) = (2::int) ^ (Suc j + 1) - 1"
      by (intro wrap32_id) linarith+
    then have w1: "wrap32 (2 * ((2::int) ^ (j + 1) - 1) + 1) = 2 ^ (Suc j + 1) - 1"
      by (simp only: e)
    have w2: "wrap32 (int j + 1) = int (Suc j)" using j29 by (simp add: wrap32_id)
    have "luby_up (2 ^ (j + 1) - 1) (int j) x =
          luby_up (wrap32 (2 * (2 ^ (j + 1) - 1) + 1)) (wrap32 (int j + 1)) x"
      using True wx by (subst luby_up.simps) simp
    also have "\<dots> = luby_up (2 ^ (Suc j + 1) - 1) (int (Suc j)) x"
      by (simp only: w1 w2)
    finally have "luby_up (2 ^ (j + 1) - 1) (int j) x = Some (2 ^ (k + 1) - 1, int k)"
      using k(2) by simp
    then show ?thesis using k(1,3) by (intro exI [of _ k]) simp
  next
    case False
    then have "luby_up (2 ^ (j + 1) - 1) (int j) x = Some (2 ^ (j + 1) - 1, int j)"
      using wx by (subst luby_up.simps) simp
    moreover have "x < 2 ^ (j + 1) - 1" using False by linarith
    ultimately show ?thesis using less.prems by blast
  qed
qed

lemma luby_exps_index_bound:
  "0 \<le> x \<Longrightarrow> x < 2 ^ (n + 1) - 1 \<Longrightarrow> nat x < length (luby_exps n)"
  using length_luby_exps_int [of n] by linarith

lemma luby_value:
  assumes "0 \<le> x" "x < 2147483647" "x < 2 ^ (n + 1) - 1"
  shows "luby pow y x = Some (pow y (int (luby_exps n ! nat x)))"
proof -
  from luby_up_reaches [OF assms(1,2), of 0] obtain k where
    k: "k \<le> 30" "luby_up 1 0 x = Some (2 ^ (k + 1) - 1, int k)" "x < 2 ^ (k + 1) - 1" by auto
  have d: "luby_down (2 ^ (k + 1) - 1) (int k) x = Some (int (luby_exps k ! nat x))"
    using luby_down_exps [OF k(1) assms(1) k(3)] .
  have lk: "nat x < length (luby_exps k)" using luby_exps_index_bound [OF assms(1) k(3)] .
  have ln: "nat x < length (luby_exps n)" using luby_exps_index_bound [OF assms(1,3)] .
  have "luby_exps k ! nat x = luby_exps n ! nat x"
  proof (cases "k \<le> n")
    case True
    then obtain d where "n = k + d" using le_Suc_ex by blast
    then show ?thesis using luby_exps_prefix [OF lk] by simp
  next
    case False
    then have "n \<le> k" by simp
    then obtain d where "k = n + d" using le_Suc_ex by blast
    then show ?thesis using luby_exps_prefix [OF ln] by simp
  qed
  with k d show ?thesis by (simp add: luby_def)
qed

lemma luby_exps_3: "luby_exps 3 = [0, 0, 1, 0, 0, 1, 2, 0, 0, 1, 0, 0, 1, 2, 3]"
  by (simp add: eval_nat_numeral)

text \<open>
  Claim C9, with its bound. For every index \<open>x\<close> with \<open>0 \<le> x < 2 ^ 31 - 1\<close> and every
  base \<open>y\<close>, \<^verbatim>\<open>luby(y, x)\<close> returns \<^verbatim>\<open>pow(y, e)\<close>, where \<open>e\<close> is the exponent of
  element \<open>x + 1\<close> of the canonical Luby sequence (element \<open>x\<close>, counted from 0, of any
  finite subsequence long enough to hold it). At \<open>x = 0, 1, 2, \<dots>\<close> the exponents are
  0, 0, 1, 0, 0, 1, 2, 0, 0, 1, 0, 0, 1, 2, 3, so with \<open>y = 2\<close>, where \<^verbatim>\<open>pow\<close> is exact,
  the values are 1, 1, 2, 1, 1, 2, 4, 1, 1, 2, 1, 1, 2, 4, 8.
\<close>

theorem luby_canonical:
  assumes "0 \<le> x" and "x < 2147483647" and "x < 2 ^ (n + 1) - 1"
  shows "luby pow y x = Some (pow y (int (luby_exps n ! nat x))) \<and>
         map (luby pow y) [0, 1, 2, 3, 4, 5, 6, 7, 8, 9, 10, 11, 12, 13, 14] =
         map (\<lambda>e. Some (pow y e)) [0, 0, 1, 0, 0, 1, 2, 0, 0, 1, 0, 0, 1, 2, 3] \<and>
         (pow 2 0 = 1 \<and> pow 2 1 = 2 \<and> pow 2 2 = 4 \<and> pow 2 3 = 8 \<longrightarrow>
          map (luby pow 2) [0, 1, 2, 3, 4, 5, 6, 7, 8, 9, 10, 11, 12, 13, 14] =
          map Some [1, 1, 2, 1, 1, 2, 4, 1, 1, 2, 1, 1, 2, 4, 8])"
  using assms by (simp add: luby_value [where n = 3] luby_value [where n = n] luby_exps_3)

text \<open>The theorem at \<open>y = 3\<close>, \<open>x = 6\<close>, with the exact power for \<^verbatim>\<open>pow\<close>.\<close>

theorem luby_canonical_witness:
  "(0::int) \<le> 6 \<and> (6::int) < 2147483647 \<and> (6::int) < 2 ^ (2 + 1) - 1 \<and>
   luby (\<lambda>y e. y powi e) 3 6 = Some 9 \<and>
   map (luby (\<lambda>y e. y powi e) 2) [0, 1, 2, 3, 4, 5, 6, 7, 8, 9, 10, 11, 12, 13, 14] =
   map Some [1, 1, 2, 1, 1, 2, 4, 1, 1, 2, 1, 1, 2, 4, 8]"
proof -
  have a: "(0::int) \<le> 6" and b: "(6::int) < 2147483647" and c: "(6::int) < 2 ^ (2 + 1) - 1"
    by simp_all
  have "luby_exps 2 = [0, 0, 1, 0, 0, 1, 2]" by (simp add: eval_nat_numeral)
  with luby_canonical [OF a b c, of "\<lambda>y e. y powi e" 3] show ?thesis by simp
qed

text \<open>
  Claim C9 as it is stated, for every \<open>x \<ge> 0\<close>, fails at the greatest \<^verbatim>\<open>int\<close>: there
  \<^verbatim>\<open>x + 1\<close> overflows, the first loop stops at once with \<open>size = 1\<close>, and the second
  loop takes a remainder by \<open>size = 0\<close>.
\<close>

theorem luby_int_max_counterexample:
  "luby (\<lambda>y e. y powi e) 2 2147483647 = None"
  by (simp add: luby_def luby_up.simps luby_down.simps wrap32_def)

section \<open>The weight invariant\<close>





definition lit_weight :: "solver \<Rightarrow> lit \<Rightarrow> int" where
  "lit_weight s q = (if sign q \<and> nbItems s + nbTrans s \<le> var q then hu_wei s (var q) else 0)"

definition popped_weight :: "solver \<Rightarrow> nat \<Rightarrow> int" where
  "popped_weight s lo = sum_list (map (lit_weight s) (drop lo (trail s)))"

definition unassigned_from :: "solver \<Rightarrow> nat \<Rightarrow> var \<Rightarrow> lbool" where
  "unassigned_from s lo v = (if v \<in> var ` set (drop lo (trail s)) then l_Undef else assigns s v)"

text \<open>
  The state the constructor builds (fields it leaves unset are zero or empty), and a
  state with two reifier variables, 2 of weight 5 (assigned false at level 1) and 3 of
  weight 7 (unassigned).
\<close>

definition init_solver :: solver where
  "init_solver = \<lparr>verbosity = 0, phase_saving = 2, ok = True, ca = [], clauses = [],
     learnts = [], watches = (\<lambda>_. []), dirties = [], assigns = (\<lambda>_. l_Undef),
     reason = (\<lambda>_. None), level = (\<lambda>_. 0), polarity = (\<lambda>_. True),
     decision = (\<lambda>_. False), activity = (\<lambda>_. 0), seen = (\<lambda>_. False),
     hu_wei = (\<lambda>_. 0), nVars = 0, trail = [], trail_lim = [], qhead = 0,
     order_heap = [], nbItems = 0, nbTrans = 0, totalWeight = 0, min_supp = 0,
     items = [], allItems = [], occ = (\<lambda>_. 0), local_trans = (\<lambda>_. []),
     diviser_state = 1, ind = 0, conflicts = 0, propagations = 0, simpDB_props = 0,
     clauses_literals = 0, learnts_literals = 0, nbClauses = 0, nbModels = 0,
     decisions = 0, dec_vars = 0, assumptions = []\<rparr>"


text \<open>Arithmetic modulo \<open>2 ^ 32\<close>.\<close>

lemma wrap32_range: "- 2147483648 \<le> wrap32 i" "wrap32 i < 2147483648"
  by (simp_all add: wrap32_def)

lemma wrap32_idem [simp]: "wrap32 (wrap32 i) = wrap32 i"
  by (rule wrap32_id) (rule wrap32_range)+

lemma wrap32_add_left: "wrap32 (wrap32 a + b) = wrap32 (a + b)"
proof -
  have "(wrap32 a + b + 2147483648) mod 4294967296 =
        ((a + 2147483648) mod 4294967296 + b) mod 4294967296"
    by (simp add: wrap32_def)
  also have "\<dots> = (a + 2147483648 + b) mod 4294967296"
    by (rule mod_add_left_eq)
  also have "a + 2147483648 + b = a + b + 2147483648" by simp
  finally show ?thesis by (simp only: wrap32_def)
qed

lemma wrap32_add_right: "wrap32 (b + wrap32 a) = wrap32 (b + a)"
  using wrap32_add_left [of a b] by (simp only: add.commute)





lemma lbool_of_simps [simp]:
  "lbool_of True = l_True" "lbool_of False = l_False"
  by (simp_all add: lbool_of_def)

lemma value_True_iff: "value s p = l_True \<longleftrightarrow> assigns s (var p) = lbool_of (\<not> sign p)"
  by (cases "assigns s (var p)") (simp_all add: value_def lbool_of_def)

lemma value_Undef_iff: "value s p = l_Undef \<longleftrightarrow> assigns s (var p) = l_Undef"
  by (cases "assigns s (var p)") (simp_all add: value_def)

lemma uncheckedEnqueue_fields [simp]:
  "assigns (uncheckedEnqueue s p from) = (assigns s)(var p := lbool_of (\<not> sign p))"
  "trail (uncheckedEnqueue s p from) = trail s @ [p]"
  "nVars (uncheckedEnqueue s p from) = nVars s"
  "hu_wei (uncheckedEnqueue s p from) = hu_wei s"
  "nbItems (uncheckedEnqueue s p from) = nbItems s"
  "nbTrans (uncheckedEnqueue s p from) = nbTrans s"
  "trail_lim (uncheckedEnqueue s p from) = trail_lim s"
  "qhead (uncheckedEnqueue s p from) = qhead s"
  "totalWeight (uncheckedEnqueue s p from) =
     (if sign p \<and> nbItems s + nbTrans s \<le> var p
      then wrap32 (totalWeight s - hu_wei s (var p)) else totalWeight s)"
  by (simp_all add: uncheckedEnqueue_def Let_def)





lemma insertVarOrder_fields [simp]:
  "assigns (insertVarOrder x s) = assigns s"
  "trail (insertVarOrder x s) = trail s"
  "nVars (insertVarOrder x s) = nVars s"
  "hu_wei (insertVarOrder x s) = hu_wei s"
  "nbItems (insertVarOrder x s) = nbItems s"
  "nbTrans (insertVarOrder x s) = nbTrans s"
  "trail_lim (insertVarOrder x s) = trail_lim s"
  "totalWeight (insertVarOrder x s) = totalWeight s"
  by (simp_all add: insertVarOrder_def)

lemma cancelUntil_body_fields [simp]:
  "assigns (cancelUntil_body c s) = (assigns s)(var (trail s ! c) := l_Undef)"
  "trail (cancelUntil_body c s) = trail s"
  "nVars (cancelUntil_body c s) = nVars s"
  "hu_wei (cancelUntil_body c s) = hu_wei s"
  "nbItems (cancelUntil_body c s) = nbItems s"
  "nbTrans (cancelUntil_body c s) = nbTrans s"
  "trail_lim (cancelUntil_body c s) = trail_lim s"
  "totalWeight (cancelUntil_body c s) =
     (if sign (trail s ! c) \<and> nbItems s + nbTrans s \<le> var (trail s ! c)
      then wrap32 (totalWeight s + hu_wei s (var (trail s ! c))) else totalWeight s)"
  by (simp_all add: cancelUntil_body_def Let_def)

lemma cancelAll_body_fields [simp]:
  "assigns (cancelAll_body c s) = (assigns s)(var (trail s ! c) := l_Undef)"
  "trail (cancelAll_body c s) = trail s"
  "nVars (cancelAll_body c s) = nVars s"
  "hu_wei (cancelAll_body c s) = hu_wei s"
  "nbItems (cancelAll_body c s) = nbItems s"
  "nbTrans (cancelAll_body c s) = nbTrans s"
  "trail_lim (cancelAll_body c s) = trail_lim s"
  "totalWeight (cancelAll_body c s) =
     (if sign (trail s ! c) \<and> nbItems s + nbTrans s \<le> var (trail s ! c)
      then wrap32 (totalWeight s + hu_wei s (var (trail s ! c))) else totalWeight s)"
  by (simp_all add: cancelAll_body_def Let_def)

text \<open>One step of either backtrack loop, abstractly.\<close>

definition unassign_like :: "(nat \<Rightarrow> solver \<Rightarrow> solver) \<Rightarrow> bool" where
  "unassign_like body = (\<forall>c s.
     assigns (body c s) = (assigns s)(var (trail s ! c) := l_Undef) \<and>
     trail (body c s) = trail s \<and> nVars (body c s) = nVars s \<and>
     hu_wei (body c s) = hu_wei s \<and> nbItems (body c s) = nbItems s \<and>
     nbTrans (body c s) = nbTrans s \<and> trail_lim (body c s) = trail_lim s \<and>
     totalWeight (body c s) =
       (if sign (trail s ! c) \<and> nbItems s + nbTrans s \<le> var (trail s ! c)
        then wrap32 (totalWeight s + hu_wei s (var (trail s ! c))) else totalWeight s))"

lemma unassign_like_bodies: "unassign_like cancelUntil_body" "unassign_like cancelAll_body"
  by (simp_all add: unassign_like_def)


lemma lit_weight_cong:
  "hu_wei s' = hu_wei s \<Longrightarrow> nbItems s' = nbItems s \<Longrightarrow> nbTrans s' = nbTrans s \<Longrightarrow>
   lit_weight s' = lit_weight s"
  by (rule ext) (simp add: lit_weight_def)

text \<open>
  The backtrack loops in closed form: what they add to \<^verbatim>\<open>totalWeight\<close> and what they
  un-assign, on any state.
\<close>

lemma unassign_loop:
  assumes b: "unassign_like body"
  shows "n \<le> length (trail s) \<Longrightarrow>
     (let s' = fold body (rev [lo ..< n]) s in
        (wrap32 (totalWeight s) = totalWeight s \<longrightarrow>
         totalWeight s' =
           wrap32 (totalWeight s + sum_list (map (lit_weight s) (drop lo (take n (trail s)))))) \<and>
        assigns s' = (\<lambda>v. if v \<in> var ` set (drop lo (take n (trail s))) then l_Undef
                          else assigns s v) \<and>
        trail s' = trail s \<and> trail_lim s' = trail_lim s \<and> hu_wei s' = hu_wei s \<and>
        nbItems s' = nbItems s \<and> nbTrans s' = nbTrans s \<and> nVars s' = nVars s)"
proof (induction n arbitrary: s)
  case 0
  then show ?case by simp
next
  case (Suc n)
  show ?case
  proof (cases "lo \<le> n")
    case True
    let ?s1 = "body n s"
    from Suc.prems have c: "n < length (trail s)" by simp
    from b have f: "assigns ?s1 = (assigns s)(var (trail s ! n) := l_Undef)"
      "trail ?s1 = trail s" "nVars ?s1 = nVars s" "hu_wei ?s1 = hu_wei s"
      "nbItems ?s1 = nbItems s" "nbTrans ?s1 = nbTrans s" "trail_lim ?s1 = trail_lim s"
      "totalWeight ?s1 = (if sign (trail s ! n) \<and> nbItems s + nbTrans s \<le> var (trail s ! n)
        then wrap32 (totalWeight s + hu_wei s (var (trail s ! n))) else totalWeight s)"
      by (simp_all add: unassign_like_def)
    have t1: "wrap32 (totalWeight s) = totalWeight s \<longrightarrow>
              totalWeight ?s1 = wrap32 (totalWeight s + lit_weight s (trail s ! n))"
      by (simp add: f lit_weight_def)
    then have r1: "wrap32 (totalWeight s) = totalWeight s \<longrightarrow>
              wrap32 (totalWeight ?s1) = totalWeight ?s1" by auto
    have n1: "n \<le> length (trail ?s1)" using c f by simp
    have lw: "lit_weight ?s1 = lit_weight s" by (rule lit_weight_cong) (simp_all add: f)
    have dr: "drop lo (take (Suc n) (trail s)) = drop lo (take n (trail s)) @ [trail s ! n]"
      using c True by (simp add: take_Suc_conv_app_nth)
    have fo: "fold body (rev [lo ..< Suc n]) s = fold body (rev [lo ..< n]) ?s1"
      using True by simp
    from Suc.IH [OF n1]
    have ih: "wrap32 (totalWeight s) = totalWeight s \<longrightarrow>
        totalWeight (fold body (rev [lo ..< n]) ?s1) =
          wrap32 (totalWeight ?s1 + sum_list (map (lit_weight s) (drop lo (take n (trail s)))))"
      "assigns (fold body (rev [lo ..< n]) ?s1) =
         (\<lambda>v. if v \<in> var ` set (drop lo (take n (trail s))) then l_Undef else assigns ?s1 v)"
      "trail (fold body (rev [lo ..< n]) ?s1) = trail s"
      "trail_lim (fold body (rev [lo ..< n]) ?s1) = trail_lim s"
      "hu_wei (fold body (rev [lo ..< n]) ?s1) = hu_wei s"
      "nbItems (fold body (rev [lo ..< n]) ?s1) = nbItems s"
      "nbTrans (fold body (rev [lo ..< n]) ?s1) = nbTrans s"
      "nVars (fold body (rev [lo ..< n]) ?s1) = nVars s"
      using r1 by (simp_all add: Let_def f lw)
    have tw: "wrap32 (totalWeight s) = totalWeight s \<longrightarrow>
          wrap32 (totalWeight ?s1 + sum_list (map (lit_weight s) (drop lo (take n (trail s))))) =
          wrap32 (totalWeight s + sum_list (map (lit_weight s) (drop lo (take (Suc n) (trail s)))))"
      using t1 unfolding dr by (simp add: wrap32_add_left wrap32_add_right ac_simps)
    have as: "(\<lambda>v. if v \<in> var ` set (drop lo (take n (trail s))) then l_Undef else assigns ?s1 v) =
          (\<lambda>v. if v \<in> var ` set (drop lo (take (Suc n) (trail s))) then l_Undef else assigns s v)"
      unfolding dr by (rule ext) (simp add: f)
    show ?thesis
      unfolding Let_def fo using ih tw as by simp
  next
    case False
    then show ?thesis using Suc.prems by simp
  qed
qed








lemma cancelUntil_closed:
  assumes "lvl < decisionLevel s"
  shows "wrap32 (totalWeight s) = totalWeight s \<Longrightarrow> totalWeight (cancelUntil s lvl) =
           wrap32 (totalWeight s + popped_weight s (trail_lim s ! lvl))"
    and "assigns (cancelUntil s lvl) = unassigned_from s (trail_lim s ! lvl)"
    and "trail (cancelUntil s lvl) = take (trail_lim s ! lvl) (trail s)"
    and "trail_lim (cancelUntil s lvl) = take lvl (trail_lim s)"
    and "qhead (cancelUntil s lvl) = trail_lim s ! lvl"
proof -
  define lo where "lo = trail_lim s ! lvl"
  define s1 where "s1 = fold cancelUntil_body (rev [lo ..< length (trail s)]) s"
  have c: "cancelUntil s lvl = s1\<lparr>qhead := lo, trail := take lo (trail s1),
                           trail_lim := take lvl (trail_lim s1)\<rparr>"
    using assms(1) by (simp add: cancelUntil_def Let_def s1_def lo_def)
  from unassign_loop [OF unassign_like_bodies(1) le_refl, where s = s and lo = lo]
  have l: "wrap32 (totalWeight s) = totalWeight s \<Longrightarrow>
             totalWeight s1 = wrap32 (totalWeight s + popped_weight s lo)"
    "assigns s1 = unassigned_from s lo" "trail s1 = trail s" "trail_lim s1 = trail_lim s"
    by (simp_all add: Let_def s1_def popped_weight_def unassigned_from_def [abs_def])
  show "wrap32 (totalWeight s) = totalWeight s \<Longrightarrow> totalWeight (cancelUntil s lvl) =
           wrap32 (totalWeight s + popped_weight s (trail_lim s ! lvl))"
    "assigns (cancelUntil s lvl) = unassigned_from s (trail_lim s ! lvl)"
    "trail (cancelUntil s lvl) = take (trail_lim s ! lvl) (trail s)"
    "trail_lim (cancelUntil s lvl) = take lvl (trail_lim s)"
    "qhead (cancelUntil s lvl) = trail_lim s ! lvl"
    by (simp_all add: c l lo_def)
qed

lemma cancelAll_closed:
  shows "wrap32 (totalWeight s) = totalWeight s \<Longrightarrow>
           totalWeight (cancelAll s) = wrap32 (totalWeight s + popped_weight s 0)"
    and "assigns (cancelAll s) = unassigned_from s 0"
    and "trail (cancelAll s) = []" and "trail_lim (cancelAll s) = []"
    and "qhead (cancelAll s) = 0"
proof -
  define s1 where "s1 = fold cancelAll_body (rev [0 ..< length (trail s)]) s"
  have c: "cancelAll s = s1\<lparr>qhead := 0, trail := [], trail_lim := []\<rparr>"
    by (simp add: cancelAll_def Let_def s1_def)
  from unassign_loop [OF unassign_like_bodies(2) le_refl, where s = s and lo = 0]
  have l: "wrap32 (totalWeight s) = totalWeight s \<Longrightarrow>
             totalWeight s1 = wrap32 (totalWeight s + popped_weight s 0)"
    "assigns s1 = unassigned_from s 0"
    by (simp_all add: Let_def s1_def popped_weight_def unassigned_from_def [abs_def])
  show "wrap32 (totalWeight s) = totalWeight s \<Longrightarrow>
           totalWeight (cancelAll s) = wrap32 (totalWeight s + popped_weight s 0)"
    "assigns (cancelAll s) = unassigned_from s 0"
    "trail (cancelAll s) = []" "trail_lim (cancelAll s) = []" "qhead (cancelAll s) = 0"
    by (simp_all add: c l)
qed









section \<open>Decision heuristic\<close>

text \<open>
  Modelled from the spec: the order heap (\<^verbatim>\<open>mtl/Heap.h\<close> and the comparator
  \<^verbatim>\<open>VarOrderLt\<close> are not among the sources), "a binary max-heap over activity". The
  heap is the list of the variables it holds; \<^verbatim>\<open>removeMin\<close> takes out a variable of
  greatest activity (the first such in the list) and returns it; \<^verbatim>\<open>insert\<close> appends;
  \<^verbatim>\<open>build\<close> replaces the content.
\<close>

fun heap_max :: "(var \<Rightarrow> real) \<Rightarrow> var \<Rightarrow> var list \<Rightarrow> var" where
  "heap_max act x [] = x"
| "heap_max act x (y # ys) = heap_max act (if act y > act x then y else x) ys"

definition removeMin :: "(var \<Rightarrow> real) \<Rightarrow> var list \<Rightarrow> var \<times> var list" where
  "removeMin act h = (let x = heap_max act (hd h) (tl h) in (x, remove1 x h))"

lemma heap_max_mem: "heap_max act x ys \<in> set (x # ys)"
  by (induction ys arbitrary: x) auto

lemma removeMin_mem: "h \<noteq> [] \<Longrightarrow> fst (removeMin act h) \<in> set h"
  using heap_max_mem [of act "hd h" "tl h"] by (cases h) (simp_all add: removeMin_def Let_def)

lemma removeMin_rest: "snd (removeMin act h) = remove1 (fst (removeMin act h)) h"
  by (simp add: removeMin_def Let_def)

lemma removeMin_length: "h \<noteq> [] \<Longrightarrow> length (snd (removeMin act h)) < length h"
  using removeMin_mem [of h act] by (simp add: removeMin_rest length_remove1)

text \<open>
  \<^verbatim>\<open>pickBranchLit\<close>. The random decision is commented out in the source; what is left is
  the loop that pops the heap until \<^verbatim>\<open>next\<close> is an unassigned decision variable, and
  the return of \<^verbatim>\<open>mkLit(next, false)\<close>.
\<close>

function pickBranchLit_loop :: "solver \<Rightarrow> var option \<Rightarrow> var option \<times> solver" where
  "pickBranchLit_loop s next =
     (if (case next of None \<Rightarrow> True
          | Some v \<Rightarrow> value_var s v \<noteq> l_Undef \<or> \<not> decision s v)
      then (if order_heap s = [] then (None, s)
            else pickBranchLit_loop
                   (s\<lparr>order_heap := snd (removeMin (activity s) (order_heap s))\<rparr>)
                   (Some (fst (removeMin (activity s) (order_heap s)))))
      else (next, s))"
  by pat_completeness auto
termination
  by (relation "measure (\<lambda>(s, next). length (order_heap s))")
     (simp_all add: removeMin_length)

declare pickBranchLit_loop.simps [simp del]

definition pickBranchLit :: "solver \<Rightarrow> lit option \<times> solver" where
  "pickBranchLit s =
     (let r = pickBranchLit_loop s None
      in (case fst r of None \<Rightarrow> None | Some v \<Rightarrow> Some (mkLit v False), snd r))"

text \<open>A variable the heuristic may branch on: unassigned and a decision variable.\<close>

definition branchable :: "solver \<Rightarrow> var \<Rightarrow> bool" where
  "branchable s v = (value_var s v = l_Undef \<and> decision s v)"

lemma pickBranchLit_loop_spec:
  "(case fst (pickBranchLit_loop s next) of
      None \<Rightarrow> \<forall>v \<in> set (order_heap s). \<not> branchable s v
    | Some v \<Rightarrow> branchable s v \<and> (v \<in> set (order_heap s) \<or> next = Some v)) \<and>
   assigns (snd (pickBranchLit_loop s next)) = assigns s \<and>
   decision (snd (pickBranchLit_loop s next)) = decision s"
proof (induction s "next" rule: pickBranchLit_loop.induct)
  case (1 s nxt)
  let ?search = "(case nxt of None \<Rightarrow> True
          | Some v \<Rightarrow> value_var s v \<noteq> l_Undef \<or> \<not> decision s v)"
  show ?case
  proof (cases ?search)
    case False
    then have "pickBranchLit_loop s nxt = (nxt, s)"
      by (subst pickBranchLit_loop.simps) simp
    then show ?thesis using False
      by (auto simp: branchable_def split: option.splits)
  next
    case search: True
    show ?thesis
    proof (cases "order_heap s = []")
      case True
      with search have "pickBranchLit_loop s nxt = (None, s)"
        by (subst pickBranchLit_loop.simps) simp
      then show ?thesis using True by simp
    next
      case False
      let ?x = "fst (removeMin (activity s) (order_heap s))"
      let ?h = "snd (removeMin (activity s) (order_heap s))"
      let ?s = "s\<lparr>order_heap := ?h\<rparr>"
      have eq: "pickBranchLit_loop s nxt = pickBranchLit_loop ?s (Some ?x)"
        using search False by (subst pickBranchLit_loop.simps) simp
      have xin: "?x \<in> set (order_heap s)" using False by (rule removeMin_mem)
      have sub: "set ?h \<subseteq> set (order_heap s)"
        by (simp add: removeMin_rest set_remove1_subset)
      have cover: "set (order_heap s) \<subseteq> insert ?x (set ?h)"
        unfolding removeMin_rest by (metis in_set_remove1 insertCI subsetI)
      have br: "branchable ?s = branchable s" by (rule ext) (simp add: branchable_def value_var_def)
      note IH = "1.IH" [OF search False]
      show ?thesis
      proof (cases "fst (pickBranchLit_loop ?s (Some ?x))")
        case None
        with IH have all: "\<forall>v \<in> set ?h. \<not> branchable s v" by (simp add: br)
        have "\<not> branchable s ?x"
        proof
          assume "branchable s ?x"
          then have "pickBranchLit_loop ?s (Some ?x) = (Some ?x, ?s)"
            by (subst pickBranchLit_loop.simps) (simp add: branchable_def value_var_def)
          with None show False by simp
        qed
        with all cover have "\<forall>v \<in> set (order_heap s). \<not> branchable s v" by auto
        with None IH show ?thesis by (simp add: eq)
      next
        case (Some v)
        with IH have "branchable s v" "v \<in> set ?h \<or> v = ?x" by (auto simp: br)
        with sub xin have "branchable s v \<and> v \<in> set (order_heap s)" by auto
        with Some IH show ?thesis by (simp add: eq)
      qed
    qed
  qed
qed

lemma pickBranchLit_loop_cong:
  "assigns s' = assigns s \<Longrightarrow> decision s' = decision s \<Longrightarrow> activity s' = activity s \<Longrightarrow>
   order_heap s' = order_heap s \<Longrightarrow>
   fst (pickBranchLit_loop s' next) = fst (pickBranchLit_loop s next)"
proof (induction s "next" arbitrary: s' rule: pickBranchLit_loop.induct)
  case (1 s nxt)
  let ?search = "(case nxt of None \<Rightarrow> True
          | Some v \<Rightarrow> value_var s v \<noteq> l_Undef \<or> \<not> decision s v)"
  let ?x = "fst (removeMin (activity s) (order_heap s))"
  let ?h = "snd (removeMin (activity s) (order_heap s))"
  have c: "(case nxt of None \<Rightarrow> True
          | Some v \<Rightarrow> value_var s' v \<noteq> l_Undef \<or> \<not> decision s' v) = ?search"
    using "1.prems" by (simp add: value_var_def split: option.splits)
  show ?case
  proof (cases "?search \<and> order_heap s \<noteq> []")
    case True
    then have a: ?search and b: "order_heap s \<noteq> []" by simp_all
    have l: "pickBranchLit_loop s' nxt = pickBranchLit_loop (s'\<lparr>order_heap := ?h\<rparr>) (Some ?x)"
      using a b c "1.prems" by (subst pickBranchLit_loop.simps) simp
    have r: "pickBranchLit_loop s nxt = pickBranchLit_loop (s\<lparr>order_heap := ?h\<rparr>) (Some ?x)"
      using a b by (subst pickBranchLit_loop.simps) simp
    have "fst (pickBranchLit_loop (s'\<lparr>order_heap := ?h\<rparr>) (Some ?x)) =
          fst (pickBranchLit_loop (s\<lparr>order_heap := ?h\<rparr>) (Some ?x))"
      using "1.prems" by (intro "1.IH" [OF a b]) simp_all
    then show ?thesis by (simp only: l r)
  next
    case False
    have l: "fst (pickBranchLit_loop s' nxt) = (if ?search then None else nxt)"
      using False c "1.prems" by (subst pickBranchLit_loop.simps) auto
    have r: "fst (pickBranchLit_loop s nxt) = (if ?search then None else nxt)"
      using False by (subst pickBranchLit_loop.simps) auto
    show ?thesis by (simp only: l r)
  qed
qed

text \<open>
  Claim C10. \<^verbatim>\<open>pickBranchLit\<close> returns \<^verbatim>\<open>lit_Undef\<close> only when no variable of the
  order heap is both unassigned and a decision variable; otherwise it returns the
  positive literal \<^verbatim>\<open>mkLit(v, false)\<close> of a variable \<open>v\<close> of the heap that is unassigned
  and a decision variable. The result is never a negative literal and does not depend
  on the saved polarity.
\<close>

theorem pickBranchLit_positive:
  "(case fst (pickBranchLit s) of
      None \<Rightarrow> \<forall>v \<in> set (order_heap s). \<not> (value_var s v = l_Undef \<and> decision s v)
    | Some p \<Rightarrow> p = mkLit (var p) False \<and> value_var s (var p) = l_Undef \<and>
        decision s (var p) \<and> var p \<in> set (order_heap s)) \<and>
   fst (pickBranchLit (s\<lparr>polarity := pol\<rparr>)) = fst (pickBranchLit s)"
proof -
  have "fst (pickBranchLit_loop (s\<lparr>polarity := pol\<rparr>) None) = fst (pickBranchLit_loop s None)"
    by (rule pickBranchLit_loop_cong) simp_all
  then have p: "fst (pickBranchLit (s\<lparr>polarity := pol\<rparr>)) = fst (pickBranchLit s)"
    by (simp add: pickBranchLit_def Let_def)
  show ?thesis using pickBranchLit_loop_spec [of s None] p
    by (auto simp: pickBranchLit_def Let_def branchable_def split: option.splits)
qed

text \<open>
  Three item variables in the heap: 0 has the greatest activity but is assigned, 1 is
  the next.
\<close>

definition branch_example :: solver where
  "branch_example = init_solver\<lparr>nVars := 3, nbItems := 3,
     assigns := (\<lambda>_. l_Undef)(0 := l_True), decision := (\<lambda>v. v < 3),
     activity := (\<lambda>_. 0)(0 := 2, 1 := 1), polarity := (\<lambda>_. True),
     order_heap := [0, 1, 2]\<rparr>"

theorem pickBranchLit_positive_witness:
  "fst (pickBranchLit branch_example) = Some (mkLit 1 False) \<and>
   value_var branch_example 1 = l_Undef \<and> decision branch_example 1 \<and>
   1 \<in> set (order_heap branch_example)"
proof -
  have e: "fst (pickBranchLit branch_example) = Some (mkLit 1 False)"
    by (simp add: pickBranchLit_def pickBranchLit_loop.simps removeMin_def value_var_def
        Let_def branch_example_def init_solver_def)
  from pickBranchLit_positive [of branch_example] e show ?thesis by simp
qed

section \<open>Removing clauses\<close>

text \<open>
  \<^verbatim>\<open>watches.smudge(p)\<close> marks the watch list of \<open>p\<close> dirty (\<^verbatim>\<open>OccLists\<close> of
  \<^verbatim>\<open>SolverTypes.h\<close>, as MiniSat defines it); \<^verbatim>\<open>remove(ws, Watcher(cr, _))\<close> takes
  out the first watcher of the clause (watchers compare by their clause handle).
  \<^verbatim>\<open>detachClause\<close> is lazy unless \<^verbatim>\<open>strict\<close> is set, \<^verbatim>\<open>removeClause\<close> calls it lazy.
\<close>

definition smudge :: "lit \<Rightarrow> solver \<Rightarrow> solver" where
  "smudge p s = (if p \<in> set (dirties s) then s else s\<lparr>dirties := dirties s @ [p]\<rparr>)"

fun remove_watcher :: "watcher list \<Rightarrow> cref \<Rightarrow> watcher list" where
  "remove_watcher [] cr = []"
| "remove_watcher (w # ws) cr = (if cref w = cr then ws else w # remove_watcher ws cr)"

definition detachClause :: "solver \<Rightarrow> cref \<Rightarrow> bool \<Rightarrow> solver" where
  "detachClause s cr strict =
     (let c = ca s ! cr;
          s1 = (if strict
                then let s' = s\<lparr>watches := (watches s)(neg (lits c ! 0) :=
                                 remove_watcher (watches s (neg (lits c ! 0))) cr)\<rparr>
                     in s'\<lparr>watches := (watches s')(neg (lits c ! 1) :=
                                 remove_watcher (watches s' (neg (lits c ! 1))) cr)\<rparr>
                else smudge (neg (lits c ! 1)) (smudge (neg (lits c ! 0)) s))
      in if learnt c
         then s1\<lparr>learnts_literals := learnts_literals s1 - int (length (lits c))\<rparr>
         else s1\<lparr>clauses_literals := clauses_literals s1 - int (length (lits c))\<rparr>)"

definition locked :: "solver \<Rightarrow> cref \<Rightarrow> bool" where
  "locked s cr =
     (let c = ca s ! cr
      in value s (lits c ! 0) = l_True \<and> reason s (var (lits c ! 0)) = Some cr)"

definition removeClause :: "solver \<Rightarrow> cref \<Rightarrow> solver" where
  "removeClause s cr =
     (let c = ca s ! cr;
          s1 = detachClause s cr False;
          s2 = (if locked s1 cr then s1\<lparr>reason := (reason s1)(var (lits c ! 0) := None)\<rparr>
                else s1)
      in s2\<lparr>ca := (ca s2)[cr := (ca s2 ! cr)\<lparr>mark := 1\<rparr>]\<rparr>)"

lemma removeClause_clauses [simp]: "clauses (removeClause s cr) = clauses s"
  by (simp add: removeClause_def detachClause_def smudge_def Let_def)

text \<open>
  \<^verbatim>\<open>reduceDB\<close>. The guard of the loop body is the literal \<^verbatim>\<open>if (1)\<close>; \<open>i\<close> and \<open>j\<close>
  are the two indices of the loop, and \<^verbatim>\<open>clauses.shrink(i - j)\<close> ends it.
\<close>

function reduceDB_loop :: "nat \<Rightarrow> nat \<Rightarrow> solver \<Rightarrow> nat \<times> nat \<times> solver" where
  "reduceDB_loop i j s =
     (if i < length (clauses s)
      then (if (1::int) \<noteq> 0
            then reduceDB_loop (i + 1) j (removeClause s (clauses s ! i))
            else reduceDB_loop (i + 1) (j + 1) (s\<lparr>clauses := (clauses s)[j := clauses s ! i]\<rparr>))
      else (i, j, s))"
  by pat_completeness auto
termination
  by (relation "measure (\<lambda>(i, j, s). length (clauses s) - i)") simp_all

declare reduceDB_loop.simps [simp del]

definition reduceDB :: "solver \<Rightarrow> solver" where
  "reduceDB s =
     (case reduceDB_loop 0 0 s of
        (i, j, s1) \<Rightarrow> s1\<lparr>clauses := take (length (clauses s1) - (i - j)) (clauses s1)\<rparr>)"

text \<open>
  What \<^verbatim>\<open>removeClause\<close> leaves of a clause: the mark is 1 and the watch lists of the
  negations of its two watched literals are smudged.
\<close>

definition removed :: "solver \<Rightarrow> solver \<Rightarrow> cref \<Rightarrow> bool" where
  "removed s s' cr =
     (mark (ca s' ! cr) = 1 \<and> neg (lits (ca s ! cr) ! 0) \<in> set (dirties s') \<and>
      neg (lits (ca s ! cr) ! 1) \<in> set (dirties s'))"

lemma removeClause_ca:
  "ca (removeClause s cr) = (ca s)[cr := (ca s ! cr)\<lparr>mark := 1\<rparr>]"
  by (simp add: removeClause_def detachClause_def smudge_def Let_def)

lemma removeClause_dirties:
  "set (dirties (removeClause s cr)) =
   set (dirties s) \<union> {neg (lits (ca s ! cr) ! 0), neg (lits (ca s ! cr) ! 1)}"
  by (auto simp: removeClause_def detachClause_def smudge_def Let_def)

lemma removeClause_facts:
  "length (ca (removeClause s cr)) = length (ca s)"
  "lits (ca (removeClause s cr) ! k) = lits (ca s ! k)"
  "set (dirties s) \<subseteq> set (dirties (removeClause s cr))"
  "mark (ca s ! k) = 1 \<Longrightarrow> mark (ca (removeClause s cr) ! k) = 1"
  "cr < length (ca s) \<Longrightarrow> removed s (removeClause s cr) cr"
proof -
  show "length (ca (removeClause s cr)) = length (ca s)" by (simp add: removeClause_ca)
  show "lits (ca (removeClause s cr) ! k) = lits (ca s ! k)"
    by (cases "cr < length (ca s)") (simp_all add: removeClause_ca nth_list_update not_less list_update_beyond)
  show "set (dirties s) \<subseteq> set (dirties (removeClause s cr))"
    by (auto simp: removeClause_dirties)
  show "mark (ca s ! k) = 1 \<Longrightarrow> mark (ca (removeClause s cr) ! k) = 1"
    by (cases "cr < length (ca s)") (simp_all add: removeClause_ca nth_list_update not_less list_update_beyond)
  show "cr < length (ca s) \<Longrightarrow> removed s (removeClause s cr) cr"
    by (simp add: removed_def removeClause_ca removeClause_dirties)
qed

lemma fold_removeClause:
  "length (ca (fold (\<lambda>cr s. removeClause s cr) xs s)) = length (ca s) \<and>
   clauses (fold (\<lambda>cr s. removeClause s cr) xs s) = clauses s \<and>
   (\<forall>k. lits (ca (fold (\<lambda>cr s. removeClause s cr) xs s) ! k) = lits (ca s ! k)) \<and>
   set (dirties s) \<subseteq> set (dirties (fold (\<lambda>cr s. removeClause s cr) xs s)) \<and>
   (\<forall>k. mark (ca s ! k) = 1 \<longrightarrow> mark (ca (fold (\<lambda>cr s. removeClause s cr) xs s) ! k) = 1) \<and>
   (\<forall>cr \<in> set xs. cr < length (ca s) \<longrightarrow>
      removed s (fold (\<lambda>cr s. removeClause s cr) xs s) cr)"
proof (induction xs arbitrary: s)
  case Nil
  show ?case by simp
next
  case (Cons x xs)
  let ?s1 = "removeClause s x"
  let ?s2 = "fold (\<lambda>cr s. removeClause s cr) xs ?s1"
  note IH = Cons.IH [of ?s1]
  note f = removeClause_facts [where s = s and cr = x]
  have len: "length (ca ?s2) = length (ca s)" using IH f(1) by simp
  have lit: "\<forall>k. lits (ca ?s2 ! k) = lits (ca s ! k)" using IH f(2) by simp
  have dir: "set (dirties s) \<subseteq> set (dirties ?s2)" using IH f(3) by blast
  have mk: "\<forall>k. mark (ca s ! k) = 1 \<longrightarrow> mark (ca ?s2 ! k) = 1" using IH f(4) by blast
  have rm: "\<forall>cr \<in> set (x # xs). cr < length (ca s) \<longrightarrow> removed s ?s2 cr"
  proof (intro ballI impI)
    fix cr assume cr: "cr \<in> set (x # xs)" "cr < length (ca s)"
    show "removed s ?s2 cr"
    proof (cases "cr \<in> set xs")
      case True
      with IH cr(2) f(1) have "removed ?s1 ?s2 cr" by simp
      then show ?thesis using f(2) by (simp add: removed_def)
    next
      case False
      with cr have "cr = x" by simp
      with f(5) cr(2) have "removed s ?s1 x" by simp
      then show ?thesis using IH \<open>cr = x\<close> by (auto simp: removed_def)
    qed
  qed
  show ?case using len lit dir mk rm IH by simp
qed

lemma reduceDB_loop_fold:
  "i \<le> length (clauses s) \<Longrightarrow>
   reduceDB_loop i j s =
     (length (clauses s), j, fold (\<lambda>cr s. removeClause s cr) (drop i (clauses s)) s)"
proof (induction i j s rule: reduceDB_loop.induct)
  case (1 i j s)
  show ?case
  proof (cases "i < length (clauses s)")
    case True
    have d: "drop i (clauses s) = clauses s ! i # drop (Suc i) (clauses s)"
      using True by (simp add: Cons_nth_drop_Suc)
    have "reduceDB_loop i j s = reduceDB_loop (i + 1) j (removeClause s (clauses s ! i))"
      using True by (subst reduceDB_loop.simps) simp
    also have "\<dots> = (length (clauses s), j,
        fold (\<lambda>cr s. removeClause s cr) (drop (Suc i) (clauses s)) (removeClause s (clauses s ! i)))"
      using "1.IH"(1) [OF True] True by simp
    finally show ?thesis by (simp add: d)
  next
    case False
    with "1.prems" have "i = length (clauses s)" by simp
    then show ?thesis by (subst reduceDB_loop.simps) simp
  qed
qed

text \<open>
  Two clauses, the first binary and locked (the reason of variable 0), the second
  ternary.
\<close>

definition reduce_example :: solver where
  "reduce_example = init_solver\<lparr>nVars := 3, nbItems := 3,
     ca := [\<lparr>lits = [mkLit 0 False, mkLit 1 True], learnt = False, mark = 0, c_activity = 0\<rparr>,
            \<lparr>lits = [mkLit 1 False, mkLit 2 False, mkLit 0 True], learnt = False, mark = 0, c_activity = 0\<rparr>],
     clauses := [0, 1],
     watches := (\<lambda>_. [])(mkLit 0 True := [Watcher 0 (mkLit 1 True)],
                          mkLit 1 False := [Watcher 0 (mkLit 0 False)],
                          mkLit 1 True := [Watcher 1 (mkLit 2 False)],
                          mkLit 2 True := [Watcher 1 (mkLit 1 False)]),
     assigns := (\<lambda>_. l_Undef)(1 := l_True, 0 := l_True),
     reason := (\<lambda>_. None)(0 := Some 0),
     trail := [mkLit 1 False, mkLit 0 False], qhead := 2,
     clauses_literals := 5\<rparr>"

text \<open>
  Claim C8. \<^verbatim>\<open>reduceDB\<close> leaves the \<^verbatim>\<open>clauses\<close> list empty, and every clause the list
  held (a valid handle) is marked removed, with its literals as they were and the watch
  lists of its two watched literals smudged (the lazy detach), whatever its size,
  activity or locked status.
\<close>

theorem reduceDB_removes_all:
  "clauses (reduceDB s) = [] \<and>
   (\<forall>cr \<in> set (clauses s). cr < length (ca s) \<longrightarrow>
      mark (ca (reduceDB s) ! cr) = 1 \<and>
      lits (ca (reduceDB s) ! cr) = lits (ca s ! cr) \<and>
      neg (lits (ca s ! cr) ! 0) \<in> set (dirties (reduceDB s)) \<and>
      neg (lits (ca s ! cr) ! 1) \<in> set (dirties (reduceDB s)))"
proof -
  let ?s1 = "fold (\<lambda>cr s. removeClause s cr) (clauses s) s"
  have l: "reduceDB_loop 0 0 s = (length (clauses s), 0, ?s1)"
    using reduceDB_loop_fold [of 0 s 0] by simp
  note f = fold_removeClause [of "clauses s" s]
  have r: "reduceDB s = ?s1\<lparr>clauses := []\<rparr>"
    using f by (simp add: reduceDB_def l)
  show ?thesis using f by (simp add: r removed_def)
qed

theorem reduceDB_removes_all_witness:
  "clauses (reduceDB reduce_example) = [] \<and>
   0 \<in> set (clauses reduce_example) \<and> 0 < length (ca reduce_example) \<and>
   locked reduce_example 0 \<and>
   mark (ca (reduceDB reduce_example) ! 0) = 1 \<and>
   mark (ca (reduceDB reduce_example) ! 1) = 1 \<and>
   mkLit 0 True \<in> set (dirties (reduceDB reduce_example))"
proof -
  have h: "0 \<in> set (clauses reduce_example)" "0 < length (ca reduce_example)"
    "1 \<in> set (clauses reduce_example)" "1 < length (ca reduce_example)"
    "locked reduce_example 0"
    "neg (lits (ca reduce_example ! 0) ! 0) = mkLit 0 True"
    by (simp_all add: reduce_example_def init_solver_def locked_def value_def neg_def)
  from reduceDB_removes_all [of reduce_example] h show ?thesis by auto
qed

section \<open>Propagation\<close>

text \<open>
  \<^verbatim>\<open>watches.cleanAll()\<close> filters, in every smudged watch list, the watchers of removed
  clauses (\<^verbatim>\<open>WatcherDeleted\<close>: the mark of the clause is 1), as MiniSat's \<^verbatim>\<open>OccLists\<close>
  does.
\<close>

definition clean :: "lit \<Rightarrow> solver \<Rightarrow> solver" where
  "clean p s = s\<lparr>watches := (watches s)(p := filter (\<lambda>w. mark (ca s ! cref w) \<noteq> 1) (watches s p))\<rparr>"

definition cleanAll :: "solver \<Rightarrow> solver" where
  "cleanAll s = (fold clean (dirties s) s)\<lparr>dirties := []\<rparr>"

text \<open>
  Writing the literals of clause \<open>cr\<close> in the arena, and the first step of the
  inspection of a clause: \<^verbatim>\<open>if (c[0] == false_lit) c[0] = c[1], c[1] = false_lit\<close>.
\<close>

definition set_lits :: "solver \<Rightarrow> cref \<Rightarrow> lit list \<Rightarrow> solver" where
  "set_lits s cr ls = s\<lparr>ca := (ca s)[cr := (ca s ! cr)\<lparr>lits := ls\<rparr>]\<rparr>"

definition arrange :: "solver \<Rightarrow> lit \<Rightarrow> cref \<Rightarrow> lit list" where
  "arrange s p cr =
     (let c = lits (ca s ! cr);
          false_lit = neg p
      in if c ! 0 = false_lit then c[0 := c ! 1, 1 := false_lit] else c)"

text \<open>
  The body of the inner loop of \<^verbatim>\<open>propagate\<close> for the watcher \<open>wi\<close> of the dequeued
  literal \<open>p\<close>: the watchers it writes at \<^verbatim>\<open>j\<close> (none when the watch moves to
  another list), the conflict it finds, and the state. The source asserts
  \<^verbatim>\<open>c[1] == false_lit\<close> after the swap. A new watch \<^verbatim>\<open>c[k]\<close> is not false, so it
  differs from \<^verbatim>\<open>~p\<close> when \<open>p\<close> is true, and the list it is pushed to is not the one
  being traversed.
\<close>

definition propagate_watcher ::
  "lit \<Rightarrow> watcher \<Rightarrow> solver \<Rightarrow> watcher list \<times> cref option \<times> solver" where
  "propagate_watcher p wi s =
     (if value s (blocker wi) = l_True then ([wi], None, s)
      else
        let cr = cref wi;
            false_lit = neg p;
            c1 = arrange s p cr;
            s1 = set_lits s cr c1;
            first = c1 ! 0;
            w = Watcher cr first
        in if first \<noteq> blocker wi then ([w], None, s1)
           else (case find (\<lambda>k. value s1 (c1 ! k) \<noteq> l_False) [2 ..< length c1] of
                   Some k \<Rightarrow>
                     let c2 = c1[1 := c1 ! k, k := false_lit];
                         s2 = set_lits s1 cr c2;
                         s3 = s2\<lparr>watches := (watches s2)
                                (neg (c2 ! 1) := watches s2 (neg (c2 ! 1)) @ [w])\<rparr>
                     in ([], None, s3)
                 | None \<Rightarrow>
                     if totalWeight s1 < min_supp s1
                     then ([w], Some cr, s1\<lparr>qhead := length (trail s1)\<rparr>)
                     else if value s1 first = l_False
                     then ([w], Some cr, s1\<lparr>qhead := length (trail s1)\<rparr>)
                     else ([w], None, uncheckedEnqueue s1 first (Some cr))))"

text \<open>
  The inner loop. The first list holds the watchers from \<^verbatim>\<open>i\<close> to \<^verbatim>\<open>end\<close>, \<open>kept\<close>
  those already copied to \<^verbatim>\<open>j\<close>; a conflict copies the remaining watchers and ends
  the loop. The result is the final content of the watch list, the conflict and the
  state.
\<close>

fun propagate_watchers ::
  "lit \<Rightarrow> watcher list \<Rightarrow> watcher list \<Rightarrow> cref option \<Rightarrow> solver \<Rightarrow>
   watcher list \<times> cref option \<times> solver" where
  "propagate_watchers p [] kept confl s = (kept, confl, s)"
| "propagate_watchers p (wi # rest) kept confl s =
     (case propagate_watcher p wi s of
        (ws, Some cr, s') \<Rightarrow> (kept @ ws @ rest, Some cr, s')
      | (ws, None, s') \<Rightarrow> propagate_watchers p rest (kept @ ws) confl s')"

declare propagate_watchers.simps [simp del]

text \<open>
  One round of the outer loop (dequeue \<open>p\<close>, run the inner loop, \<^verbatim>\<open>ws.shrink(i - j)\<close>),
  the outer loop, which may not return, and \<^verbatim>\<open>propagate\<close>.
\<close>

definition propagate_lit :: "cref option \<Rightarrow> solver \<Rightarrow> cref option \<times> solver" where
  "propagate_lit confl s =
     (let p = trail s ! qhead s;
          s1 = s\<lparr>qhead := qhead s + 1\<rparr>;
          r = propagate_watchers p (watches s1 p) [] confl s1;
          s2 = snd (snd r)
      in (fst (snd r), s2\<lparr>watches := (watches s2)(p := fst r)\<rparr>))"

partial_function (option) propagate_loop ::
  "cref option \<Rightarrow> nat \<Rightarrow> solver \<Rightarrow> (cref option \<times> nat \<times> solver) option" where
  "propagate_loop confl num_props s =
     (if qhead s < length (trail s)
      then propagate_loop (fst (propagate_lit confl s)) (num_props + 1)
             (snd (propagate_lit confl s))
      else Some (confl, num_props, s))"

definition propagate :: "solver \<Rightarrow> (cref option \<times> solver) option" where
  "propagate s =
     (case propagate_loop None 0 (cleanAll s) of
        None \<Rightarrow> None
      | Some (confl, num_props, s1) \<Rightarrow>
          Some (confl, s1\<lparr>propagations := propagations s1 + num_props,
                           simpDB_props := simpDB_props s1 - int num_props\<rparr>))"

text \<open>\<^verbatim>\<open>attachClause\<close>; the source asserts that the clause has two literals or more.\<close>

definition attachClause :: "solver \<Rightarrow> cref \<Rightarrow> solver" where
  "attachClause s cr =
     (let c = ca s ! cr;
          s1 = s\<lparr>watches := (watches s)(neg (lits c ! 0) :=
                   watches s (neg (lits c ! 0)) @ [Watcher cr (lits c ! 1)])\<rparr>;
          s2 = s1\<lparr>watches := (watches s1)(neg (lits c ! 1) :=
                   watches s1 (neg (lits c ! 1)) @ [Watcher cr (lits c ! 0)])\<rparr>
      in if learnt c
         then s2\<lparr>learnts_literals := learnts_literals s2 + int (length (lits c))\<rparr>
         else s2\<lparr>clauses_literals := clauses_literals s2 + int (length (lits c))\<rparr>)"

text \<open>
  The clause \<open>\<not>x0 \<or> \<not>x1 \<or> \<not>x2\<close> over three items, attached in the initial state.
\<close>

definition watch_example0 :: solver where
  "watch_example0 = attachClause (init_solver\<lparr>nVars := 3, nbItems := 3,
     decision := (\<lambda>v. v < 3), order_heap := [0, 1, 2],
     ca := [\<lparr>lits = [mkLit 0 True, mkLit 1 True, mkLit 2 True], learnt = False, mark = 0,
             c_activity = 0\<rparr>],
     clauses := [0]\<rparr>) 0"

lemma neg_simps [simp]: "neg (mkLit v b) = mkLit v (\<not> b)"
  by (simp add: neg_def)


lemma set_lits_fields [simp]:
  "value (set_lits s cr ls) = value s"
  "trail (set_lits s cr ls) = trail s"
  "qhead (set_lits s cr ls) = qhead s"
  "totalWeight (set_lits s cr ls) = totalWeight s"
  "min_supp (set_lits s cr ls) = min_supp s"
  "watches (set_lits s cr ls) = watches s"
  "assigns (set_lits s cr ls) = assigns s"
  by (simp_all add: set_lits_def value_def [abs_def])

lemma propagate_loop_done:
  "length (trail s) \<le> qhead s \<Longrightarrow> propagate_loop confl n s = Some (confl, n, s)"
  by (subst propagate_loop.simps) simp

lemma propagate_loop_queue_empty:
  assumes "propagate_loop confl n s = Some r"
  shows "length (trail (snd (snd r))) \<le> qhead (snd (snd r))"
proof (rule propagate_loop.raw_induct
    [where P = "\<lambda>confl n s r. length (trail (snd (snd r))) \<le> qhead (snd (snd r))", OF _ assms])
  fix loop :: "cref option \<Rightarrow> nat \<Rightarrow> solver \<Rightarrow> (cref option \<times> nat \<times> solver) option"
    and confl n s r
  assume IH: "\<And>c n s y. loop c n s = Some y \<Longrightarrow>
      length (trail (snd (snd y))) \<le> qhead (snd (snd y))"
    and eq: "(if qhead s < length (trail s)
      then loop (fst (propagate_lit confl s)) (n + 1) (snd (propagate_lit confl s))
      else Some (confl, n, s)) = Some r"
  show "length (trail (snd (snd r))) \<le> qhead (snd (snd r))"
  proof (cases "qhead s < length (trail s)")
    case True
    with eq IH show ?thesis by simp
  next
    case False
    with eq show ?thesis by auto
  qed
qed

lemma propagate_queue_empty:
  "propagate s = Some (confl, s') \<Longrightarrow> length (trail s') \<le> qhead s'"
  by (auto simp: propagate_def split: option.splits dest!: propagate_loop_queue_empty)

text \<open>
  Claim C3. The inner loop examines watcher \<open>wi\<close> of a clause whose blocker is not
  true, whose arranged first literal is the blocker (the source's condition for looking
  at the rest of the clause), and finds no replacement watch. Then: if
  \<^verbatim>\<open>totalWeight < min_supp\<close> or the first literal is false, the clause is the conflict
  (in the first case whatever the value of the first literal), \<^verbatim>\<open>qhead\<close> is set
  to \<^verbatim>\<open>trail.size()\<close> and the watch list is the kept watchers, this watcher and the
  remaining ones unchanged; otherwise the first literal is enqueued with the clause as
  its reason and the loop goes on. The outer loop, entered in the state the conflict
  leaves, returns that conflict at once; and whenever \<^verbatim>\<open>propagate\<close> returns, the
  propagation queue is empty.
\<close>

theorem propagate_unit_or_conflict:
  assumes "value s (blocker wi) \<noteq> l_True"
    and "c = arrange s p (cref wi)"
    and "c ! 0 = blocker wi"
    and "find (\<lambda>k. value s (c ! k) \<noteq> l_False) [2 ..< length c] = None"
    and "s1 = set_lits s (cref wi) c"
    and "w = Watcher (cref wi) (c ! 0)"
    and "s2 = s1\<lparr>qhead := length (trail s), watches := (watches s1)(p := kept @ [w] @ rest)\<rparr>"
  shows "propagate_watchers p (wi # rest) kept confl s =
           (if totalWeight s < min_supp s \<or> value s (c ! 0) = l_False
            then (kept @ [w] @ rest, Some (cref wi), s1\<lparr>qhead := length (trail s)\<rparr>)
            else propagate_watchers p rest (kept @ [w]) confl
                   (uncheckedEnqueue s1 (c ! 0) (Some (cref wi)))) \<and>
         propagate_loop (Some (cref wi)) n s2 = Some (Some (cref wi), n, s2) \<and>
         qhead s2 = length (trail s2) \<and>
         trail (uncheckedEnqueue s1 (c ! 0) (Some (cref wi))) = trail s @ [c ! 0] \<and>
         reason (uncheckedEnqueue s1 (c ! 0) (Some (cref wi))) (var (c ! 0)) = Some (cref wi) \<and>
         (propagate s0 = Some (confl', s') \<longrightarrow> length (trail s') \<le> qhead s')"
proof -
  have a: "propagate_watchers p (wi # rest) kept confl s =
           (if totalWeight s < min_supp s \<or> value s (c ! 0) = l_False
            then (kept @ [w] @ rest, Some (cref wi), s1\<lparr>qhead := length (trail s)\<rparr>)
            else propagate_watchers p rest (kept @ [w]) confl
                   (uncheckedEnqueue s1 (c ! 0) (Some (cref wi))))"
    using assms(1,3,4) unfolding assms(2) assms(5) assms(6)
    by (simp add: Let_def propagate_watchers.simps propagate_watcher_def)
  have t: "trail s2 = trail s" "qhead s2 = length (trail s)" by (simp_all add: assms(7) assms(5))
  have b: "propagate_loop (Some (cref wi)) n s2 = Some (Some (cref wi), n, s2)"
    by (rule propagate_loop_done) (simp add: t)
  have e: "reason (uncheckedEnqueue s1 (c ! 0) (Some (cref wi))) (var (c ! 0)) = Some (cref wi)"
    by (simp add: uncheckedEnqueue_def Let_def)
  show ?thesis using a b t e propagate_queue_empty [of s0 confl' s']
    by (simp add: assms(5))
qed

text \<open>
  The binary clause \<open>x0 \<or> \<not>x1\<close> with \<open>x1\<close> true and dequeued, \<open>x0\<close> unassigned, and
  \<^verbatim>\<open>totalWeight = 0 < min_supp = 1\<close>.
\<close>

definition unit_example :: solver where
  "unit_example = init_solver\<lparr>nVars := 2, nbItems := 2,
     ca := [\<lparr>lits = [mkLit 0 False, mkLit 1 True], learnt = False, mark = 0, c_activity = 0\<rparr>],
     clauses := [0],
     watches := (\<lambda>_. [])(mkLit 0 True := [Watcher 0 (mkLit 1 True)],
                          mkLit 1 False := [Watcher 0 (mkLit 0 False)]),
     assigns := (\<lambda>_. l_Undef)(1 := l_True),
     trail := [mkLit 1 False], qhead := 1, totalWeight := 0, min_supp := 1\<rparr>"


theorem propagate_unit_or_conflict_witness:
  "value unit_example (blocker (Watcher 0 (mkLit 0 False))) \<noteq> l_True \<and>
   arrange unit_example (mkLit 1 False) 0 ! 0 = blocker (Watcher 0 (mkLit 0 False)) \<and>
   value unit_example (mkLit 0 False) = l_Undef \<and>
   totalWeight unit_example < min_supp unit_example \<and>
   propagate_watchers (mkLit 1 False) [Watcher 0 (mkLit 0 False)] [] None unit_example =
     ([Watcher 0 (mkLit 0 False)], Some 0,
      (set_lits unit_example 0 [mkLit 0 False, mkLit 1 True])\<lparr>qhead := 1\<rparr>) \<and>
   (\<exists>s'. propagate (unit_example\<lparr>qhead := 0\<rparr>) = Some (Some 0, s') \<and>
         qhead s' = length (trail s') \<and> value s' (mkLit 0 False) = l_Undef)"
proof -
  let ?wi = "Watcher 0 (mkLit 0 False)"
  have c: "arrange unit_example (mkLit 1 False) (cref ?wi) = [mkLit 0 False, mkLit 1 True]"
    by (simp add: arrange_def unit_example_def init_solver_def)
  have h3: "arrange unit_example (mkLit 1 False) (cref ?wi) ! 0 = blocker ?wi"
    and h4: "find (\<lambda>k. value unit_example (arrange unit_example (mkLit 1 False) (cref ?wi) ! k)
                 \<noteq> l_False)
              [2 ..< length (arrange unit_example (mkLit 1 False) (cref ?wi))] = None"
    by (simp_all only: c) simp_all
  have h1: "value unit_example (blocker ?wi) \<noteq> l_True"
    and u: "value unit_example (mkLit 0 False) = l_Undef"
    and t: "totalWeight unit_example < min_supp unit_example"
       "length (trail unit_example) = 1"
    by (simp_all add: value_def unit_example_def init_solver_def)
  have w: "\<exists>s'. propagate (unit_example\<lparr>qhead := 0\<rparr>) = Some (Some 0, s') \<and>
         qhead s' = length (trail s') \<and> value s' (mkLit 0 False) = l_Undef"
    by (simp add: propagate_def cleanAll_def propagate_loop.simps propagate_lit_def arrange_def
        propagate_watchers.simps propagate_watcher_def
        set_lits_def value_def Let_def unit_example_def init_solver_def)
  from propagate_unit_or_conflict [OF h1 refl h3 h4 refl refl refl, of "[]" "[]" None]
  have "propagate_watchers (mkLit 1 False) [?wi] [] None unit_example =
     ([?wi], Some 0, (set_lits unit_example 0 [mkLit 0 False, mkLit 1 True])\<lparr>qhead := 1\<rparr>)"
    using t by (simp add: c [simplified])
  with h1 h3 u t w show ?thesis by simp
qed

text \<open>
  Claim C4, at a concrete run. The clause \<open>\<not>x0 \<or> \<not>x1 \<or> \<not>x2\<close> is attached; \<open>x1\<close> is
  decided and propagated (the watch moves from \<open>\<not>x1\<close> to \<open>\<not>x2\<close>), then \<open>x0\<close> is
  decided and propagated. The watcher in the list of \<open>x0\<close> has the stale blocker
  \<open>\<not>x1\<close>, so the arranged first literal \<open>\<not>x2\<close> differs from it and the watcher is
  retained with \<open>\<not>x2\<close> as its blocker, although \<open>\<not>x2\<close> is unassigned, not true: the
  clause is unit, and nothing is enqueued.
\<close>

theorem propagate_retains_unsatisfied_watch:
  "\<exists>s1 s2.
     propagate (uncheckedEnqueue (newDecisionLevel watch_example0) (mkLit 1 False) None) =
       Some (None, s1) \<and>
     lits (ca s1 ! 0) = [mkLit 0 True, mkLit 2 True, mkLit 1 True] \<and>
     watches s1 (mkLit 0 False) = [Watcher 0 (mkLit 1 True)] \<and>
     propagate (uncheckedEnqueue (newDecisionLevel s1) (mkLit 0 False) None) = Some (None, s2) \<and>
     lits (ca s2 ! 0) = [mkLit 2 True, mkLit 0 True, mkLit 1 True] \<and>
     watches s2 (mkLit 0 False) = [Watcher 0 (mkLit 2 True)] \<and>
     trail s2 = [mkLit 1 False, mkLit 0 False] \<and>
     value s2 (mkLit 0 True) = l_False \<and> value s2 (mkLit 1 True) = l_False \<and>
     value s2 (mkLit 2 True) = l_Undef"
  by (simp add: propagate_def cleanAll_def propagate_loop.simps propagate_lit_def arrange_def
      propagate_watchers.simps propagate_watcher_def set_lits_def value_def Let_def uncheckedEnqueue_def newDecisionLevel_def decisionLevel_def
      watch_example0_def attachClause_def init_solver_def)

section \<open>Adding clauses\<close>

text \<open>
  The fields of \<^verbatim>\<open>Cooperation\<close> (\<^verbatim>\<open>core/Cooperation.h\<close> is not among the sources) that
  the solver reads: the number of workers, the shared minimum support, and the appearance
  index of the database (per item its total weight \<^verbatim>\<open>wocc\<close> and the transactions
  holding it, per transaction its items and their weights).
\<close>

record cooperation =
  nbThreads :: nat
  coop_min_supp :: int
  wocc :: "var \<Rightarrow> int"
  appearTrans :: "var \<Rightarrow> nat list"
  list_transactions :: "nat \<Rightarrow> lit list"
  wItemTrans :: "nat \<Rightarrow> int list"
  enum_clos :: int
  div_begining :: nat

text \<open>A loop over a list whose body may not return.\<close>

fun foldM :: "('a \<Rightarrow> 'b \<Rightarrow> 'b option) \<Rightarrow> 'a list \<Rightarrow> 'b \<Rightarrow> 'b option" where
  "foldM f [] s = Some s"
| "foldM f (x # xs) s = (case f x s of None \<Rightarrow> None | Some s' \<Rightarrow> foldM f xs s')"

text \<open>
  \<^verbatim>\<open>newVar(sign, dvar)\<close> with \<^verbatim>\<open>setDecisionVar\<close> of \<^verbatim>\<open>Solver.h\<close>; both parameters
  default to true. The random initial activity (\<^verbatim>\<open>rnd_init_act\<close>, off by default) is
  left out: a new variable has activity 0.
\<close>

definition setDecisionVar :: "solver \<Rightarrow> var \<Rightarrow> bool \<Rightarrow> solver" where
  "setDecisionVar s v b =
     (let s1 = (if b \<and> \<not> decision s v then s\<lparr>dec_vars := dec_vars s + 1\<rparr>
                else if \<not> b \<and> decision s v then s\<lparr>dec_vars := dec_vars s - 1\<rparr>
                else s)
      in insertVarOrder v (s1\<lparr>decision := (decision s1)(v := b)\<rparr>))"

definition newVar :: "solver \<Rightarrow> bool \<Rightarrow> bool \<Rightarrow> var \<times> solver" where
  "newVar s pol dvar =
     (let v = nVars s;
          s1 = s\<lparr>watches := (watches s)(mkLit v False := [], mkLit v True := []),
                 assigns := (assigns s)(v := l_Undef),
                 reason := (reason s)(v := None),
                 level := (level s)(v := 0),
                 activity := (activity s)(v := 0),
                 seen := (seen s)(v := False),
                 hu_wei := (hu_wei s)(v := 0),
                 polarity := (polarity s)(v := pol),
                 decision := (decision s)(v := False),
                 nVars := v + 1\<rparr>
      in (v, setDecisionVar s1 v dvar))"

text \<open>
  \<^verbatim>\<open>addClause_\<close> (here \<open>addClause'\<close>): after \<^verbatim>\<open>sort(ps)\<close>, the loop drops false and
  duplicate literals and leaves at once (\<open>None\<close>) on a true literal or a literal next
  to its negation; \<open>p\<close> is the last literal kept, \<^verbatim>\<open>lit_Undef\<close> at the start. A unit
  clause is enqueued and propagated, a longer one allocated at the end of the arena and
  attached. The source asserts that the decision level is 0. \<^verbatim>\<open>addClause\<close> of
  \<^verbatim>\<open>Solver.h\<close> copies its literals and calls \<^verbatim>\<open>addClause_\<close>; the callers below ignore
  the Boolean.
\<close>

fun addClause_loop :: "solver \<Rightarrow> lit option \<Rightarrow> lit list \<Rightarrow> lit list \<Rightarrow> lit list option" where
  "addClause_loop s p [] out = Some out"
| "addClause_loop s p (x # xs) out =
     (if value s x = l_True \<or> (case p of None \<Rightarrow> False | Some q \<Rightarrow> x = neg q) then None
      else if value s x \<noteq> l_False \<and> Some x \<noteq> p then addClause_loop s (Some x) xs (out @ [x])
      else addClause_loop s p xs out)"

definition addClause' :: "solver \<Rightarrow> lit list \<Rightarrow> (bool \<times> solver) option" where
  "addClause' s ps =
     (if \<not> ok s then Some (False, s)
      else case addClause_loop s None (sort_key toInt ps) [] of
             None \<Rightarrow> Some (True, s)
           | Some ps' \<Rightarrow>
               if length ps' = 0 then Some (False, s\<lparr>ok := False\<rparr>)
               else if length ps' = 1
               then (case propagate (uncheckedEnqueue s (ps' ! 0) None) of
                       None \<Rightarrow> None
                     | Some (confl, s1) \<Rightarrow> Some (confl = None, s1\<lparr>ok := (confl = None)\<rparr>))
               else let cr = length (ca s);
                        s1 = s\<lparr>ca := ca s @ [\<lparr>lits = ps', learnt = False, mark = 0,
                                                c_activity = 0\<rparr>],
                               clauses := clauses s @ [cr]\<rparr>;
                        s2 = attachClause s1 cr
                    in Some (True, s2\<lparr>nbClauses := nbClauses s2 + 1\<rparr>))"

definition addClause :: "solver \<Rightarrow> lit list \<Rightarrow> solver option" where
  "addClause s ps = map_option snd (addClause' s ps)"

section \<open>Guiding-path encoder\<close>

text \<open>
  The loops that set or clear \<^verbatim>\<open>seen\<close> for the variables of a list, the two
  \<^verbatim>\<open>add_closure_constraints\<close> and \<^verbatim>\<open>add_support_constraints\<close>; \<open>support_binary\<close> is
  the body of its last loop over \<^verbatim>\<open>items\<close>.
\<close>

definition mark_seen :: "bool \<Rightarrow> lit list \<Rightarrow> solver \<Rightarrow> solver" where
  "mark_seen b ls s = fold (\<lambda>l s. s\<lparr>seen := (seen s)(var l := b)\<rparr>) ls s"

definition add_closure_constraints_item :: "solver \<Rightarrow> lit \<Rightarrow> lit list \<Rightarrow> lit list \<Rightarrow> solver option" where
  "add_closure_constraints_item s item trns app =
     (let s1 = mark_seen True app s;
          liste = filter (\<lambda>t. \<not> seen s1 (var t)) trns @ [item]
      in do { s2 \<leftarrow> addClause s1 liste; Some (mark_seen False app s2) })"

definition add_closure_constraints :: "solver \<Rightarrow> lit list \<Rightarrow> lit list \<Rightarrow> solver option" where
  "add_closure_constraints s trns app =
     (let s1 = mark_seen True app s;
          liste = filter (\<lambda>t. \<not> seen s1 (var t)) trns
      in do { s2 \<leftarrow> addClause s1 liste; Some (mark_seen False app s2) })"

definition support_binary :: "nat \<Rightarrow> lit \<Rightarrow> solver \<Rightarrow> solver option" where
  "support_binary num x s =
     (if \<not> seen s (var x) \<and> value s x \<noteq> l_False
      then addClause s [mkLit num True, neg x] else Some s)"

definition add_support_constraints :: "solver \<Rightarrow> nat \<Rightarrow> lit list \<Rightarrow> lit list \<Rightarrow> solver option" where
  "add_support_constraints s num lastTrans its =
     do { s1 \<leftarrow> (if verbosity s = 1 then addClause s (lastTrans @ [mkLit num True]) else Some s);
          let s2 = mark_seen True lastTrans s1;
          s3 \<leftarrow> (if verbosity s2 = 1
                 then addClause s2 (filter (\<lambda>x. \<not> seen s2 (var x) \<and> value s2 x \<noteq> l_False) its
                                      @ [mkLit num False])
                 else Some s2);
          s4 \<leftarrow> foldM (support_binary num) its s3;
          Some (mark_seen False lastTrans s4) }"


text \<open>
  \<^verbatim>\<open>encodeGuidingPath(coop, index)\<close>, in the order of the source: the guiding-path
  literals (\<open>egp_path\<close>); for every transaction of the head item and every item of
  it that is not false, a reifier with its two clauses and its weight (\<open>egp_item\<close>,
  \<open>egp_trans\<close>, \<open>egp_encode\<close>); the reset of \<^verbatim>\<open>seen\<close> (\<open>egp_unsee\<close>); the pruning
  of the items of low weight (\<open>egp_prune\<close>); the support and closure clauses
  (\<open>egp_constraints\<close>); the rebuilt heap (\<open>egp_heap\<close>); the reset of \<^verbatim>\<open>occ\<close> and
  \<^verbatim>\<open>local_trans\<close> (\<open>egp_clear\<close>). The last statement of the function (a garbage
  collection when \<^verbatim>\<open>clauses.size() > max_clauses\<close>, and the update of
  \<^verbatim>\<open>max_clauses\<close>) depends on the clause allocator, which is not among the sources: it
  is the parameter \<open>garbage\<close>. The sums \<^verbatim>\<open>totalWeight\<close>, \<^verbatim>\<open>wcurTrans\<close> and \<^verbatim>\<open>occ\<close>
  are \<^verbatim>\<open>int\<close> and wrap.
\<close>

definition egp_path_step :: "nat \<Rightarrow> solver \<Rightarrow> solver" where
  "egp_path_step i s =
     (uncheckedEnqueue s (neg (allItems s ! i)) None)
       \<lparr>seen := (seen s)(var (allItems s ! i) := True)\<rparr>"

definition egp_path :: "solver \<Rightarrow> nat \<Rightarrow> solver" where
  "egp_path s index =
     (let s1 = fold egp_path_step [0 ..< index - 1] s
      in uncheckedEnqueue s1 (allItems s1 ! (index - 1)) None)"

definition egp_new_reifier :: "solver \<Rightarrow> nat \<Rightarrow> lit \<times> solver \<times> nat" where
  "egp_new_reifier s init_vars =
     (if init_vars < nVars s then (mkLit init_vars False, s, init_vars + 1)
      else (let r = newVar s True True in (mkLit (fst r) False, snd r, init_vars + 1)))"

definition egp_item ::
  "cooperation \<Rightarrow> nat \<Rightarrow> lit \<Rightarrow> nat \<Rightarrow> solver \<times> nat \<times> int \<Rightarrow> (solver \<times> nat \<times> int) option" where
  "egp_item coop num qlit j st =
     (case st of (s, init_vars, wcurTrans) \<Rightarrow>
        let r = list_transactions coop num ! j;
            v = var r
        in do {
          (s1, iv1, w1) \<leftarrow>
            (if value s r \<noteq> l_False
             then (case egp_new_reifier s init_vars of (a, sa, iv) \<Rightarrow>
                     do {
                       sb \<leftarrow> addClause sa [neg a, qlit];
                       sc \<leftarrow> addClause sb [neg a, r];
                       let w = wItemTrans coop num ! j;
                       Some (sc\<lparr>hu_wei := (hu_wei sc)(var a := w),
                                 totalWeight := wrap32 (totalWeight sc + w)\<rparr>, iv,
                             wrap32 (wcurTrans + w))
                     })
             else Some (s, init_vars, wcurTrans));
          let s2 = s1\<lparr>local_trans := (local_trans s1)(v := local_trans s1 v @ [qlit])\<rparr>;
          Some (if \<not> seen s2 v
                then s2\<lparr>seen := (seen s2)(v := True), items := items s2 @ [r]\<rparr> else s2,
                iv1, w1)
        })"

definition egp_trans ::
  "cooperation \<Rightarrow> nat \<Rightarrow> solver \<times> nat \<times> lit list \<Rightarrow> (solver \<times> nat \<times> lit list) option" where
  "egp_trans coop num st =
     (case st of (s, init_vars, currentDB) \<Rightarrow>
        let qlit = mkLit (num + nbItems s) False;
            t = list_transactions coop num
        in do {
          (s1, iv1, wcurTrans) \<leftarrow> foldM (egp_item coop num qlit) [0 ..< length t] (s, init_vars, 0);
          let s2 = fold (\<lambda>r s. s\<lparr>occ := (occ s)(var r := wrap32 (occ s (var r) + wcurTrans))\<rparr>)
                     t s1;
          Some (s2, iv1, currentDB @ [qlit])
        })"

definition egp_encode :: "cooperation \<Rightarrow> lit \<Rightarrow> solver \<Rightarrow> (solver \<times> lit list) option" where
  "egp_encode coop p s =
     do {
       (s1, iv, currentDB) \<leftarrow> foldM (egp_trans coop) (appearTrans coop (var p))
                                 (s\<lparr>totalWeight := 0\<rparr>, nbItems s + nbTrans s, []);
       Some (s1, currentDB)
     }"

definition egp_unsee :: "nat \<Rightarrow> solver \<Rightarrow> solver" where
  "egp_unsee index s = mark_seen False (take index (allItems s)) (mark_seen False (items s) s)"

definition egp_prune_item :: "cooperation \<Rightarrow> lit \<Rightarrow> solver \<Rightarrow> solver option" where
  "egp_prune_item coop r s =
     (if value s r = l_Undef \<and> occ s (var r) < coop_min_supp coop
      then map_option snd (propagate (uncheckedEnqueue s (neg r) None))
      else Some s)"

definition egp_prune :: "cooperation \<Rightarrow> solver \<Rightarrow> solver option" where
  "egp_prune coop s = foldM (egp_prune_item coop) (items s) s"

definition egp_constraints :: "cooperation \<Rightarrow> nat \<Rightarrow> lit \<Rightarrow> lit list \<Rightarrow> solver \<Rightarrow> solver option" where
  "egp_constraints coop index p currentDB s =
     (if coop_min_supp coop \<le> totalWeight s
      then do {
        s1 \<leftarrow> foldM (\<lambda>num s. add_support_constraints s (num + nbItems s)
                                (list_transactions coop num) (items s))
                (appearTrans coop (var p)) s;
        if enum_clos coop = 1
        then do {
          s2 \<leftarrow> foldM (\<lambda>q s. if value s q \<noteq> l_True
                             then add_closure_constraints_item s q currentDB (local_trans s (var q))
                             else Some s)
                  (items s1) s1;
          foldM (\<lambda>i s. let q = allItems s ! i
                        in if coop_min_supp coop \<le> occ s (var q)
                           then add_closure_constraints s currentDB (local_trans s (var q))
                           else Some s)
            [div_begining coop ..< index - 1] s2
        }
        else Some s1
      }
      else Some s)"

definition egp_heap :: "nat \<Rightarrow> solver \<Rightarrow> solver" where
  "egp_heap current_dabase_size s =
     (let s1 = fold (\<lambda>q s. if value s q = l_Undef
                           then s\<lparr>activity := (activity s)(var q :=
                                   real_of_int (int current_dabase_size -
                                                int (length (local_trans s (var q)))))\<rparr>
                           else s) (items s) s
      in s1\<lparr>order_heap := map var (filter (\<lambda>q. value s q = l_Undef) (items s))\<rparr>)"

definition egp_clear :: "solver \<Rightarrow> solver" where
  "egp_clear s =
     fold (\<lambda>q s. s\<lparr>local_trans := (local_trans s)(var q := []), occ := (occ s)(var q := 0)\<rparr>)
       (allItems s) s"

definition egp_continue ::
  "(solver \<Rightarrow> solver) \<Rightarrow> cooperation \<Rightarrow> nat \<Rightarrow> lit \<Rightarrow> solver \<Rightarrow> (bool \<times> solver) option" where
  "egp_continue garbage coop index p s1 =
     do {
       (s2, currentDB) \<leftarrow> egp_encode coop p s1;
       let s3 = egp_unsee index s2;
       s4 \<leftarrow> egp_prune coop s3;
       s5 \<leftarrow> egp_constraints coop index p currentDB s4;
       let s6 = egp_clear (egp_heap (length (appearTrans coop (var p))) s5);
       Some (True, garbage s6)
     }"

definition encodeGuidingPath ::
  "(solver \<Rightarrow> solver) \<Rightarrow> cooperation \<Rightarrow> nat \<Rightarrow> solver \<Rightarrow> (bool \<times> solver) option" where
  "encodeGuidingPath garbage coop index s =
     (let s0 = s\<lparr>items := []\<rparr>;
          p = allItems s0 ! (index - 1)
      in if wocc coop (var p) < coop_min_supp coop then Some (False, s0)
         else egp_continue garbage coop index p (egp_path s0 index))"

section \<open>Search driver\<close>

text \<open>
  The body of the loop of \<^verbatim>\<open>search\<close> has two entry points, the top of the loop (label
  \<^verbatim>\<open>Prop\<close>) and the label \<^verbatim>\<open>div_section\<close>; every path through it ends in a jump to
  one of them or in a return. \<open>search_step\<close> runs the body from one entry point to the
  next jump. \<open>search_flip\<close> is the one-level backtrack that flips the last decision,
  \<open>search_undivide\<close> the transition to \<^verbatim>\<open>diviser_state = 0\<close>; \<open>search_advance\<close> is
  the loop over the guiding paths, \<open>search_assume\<close> the loop over the assumptions.
  \<^verbatim>\<open>analyze\<close> is never called.
\<close>

datatype search_ctl = Prop | Div_section | Return lbool

definition search_flip :: "solver \<Rightarrow> solver" where
  "search_flip s =
     (let q = trail s ! (trail_lim s ! (length (trail_lim s) - 1));
          s1 = cancelUntil s (decisionLevel s - 1)
      in uncheckedEnqueue s1 (neg q) None)"

definition search_undivide :: "solver \<Rightarrow> solver" where
  "search_undivide s = cancelAll (s\<lparr>diviser_state := 0\<rparr>)"

definition search_prop :: "solver \<Rightarrow> (search_ctl \<times> solver) option" where
  "search_prop s =
     (case propagate s of
        None \<Rightarrow> None
      | Some (confl, s1) \<Rightarrow>
          if \<not> ok s1 \<or> confl \<noteq> None
          then let s2 = s1\<lparr>conflicts := conflicts s1 + 1\<rparr>
               in if \<not> ok s2 \<or> decisionLevel s2 = 0
                  then Some (Div_section, search_undivide s2)
                  else Some (Prop, search_flip s2)
          else Some (Div_section, s1))"

partial_function (option) search_advance ::
  "(solver \<Rightarrow> solver) \<Rightarrow> cooperation \<Rightarrow> solver \<Rightarrow> solver option" where
  "search_advance garbage coop s =
     (if ind s < length (allItems s)
      then Option.bind (encodeGuidingPath garbage coop (ind s + 1) s)
             (\<lambda>r. if \<not> fst r
                  then search_advance garbage coop ((snd r)\<lparr>ind := ind (snd r) + nbThreads coop\<rparr>)
                  else Some (snd r))
      else Some s)"

function search_assume :: "solver \<Rightarrow> search_ctl \<times> lit option \<times> solver" where
  "search_assume s =
     (if decisionLevel s < length (assumptions s)
      then let p = assumptions s ! decisionLevel s
           in if value s p = l_True then search_assume (newDecisionLevel s)
              else if value s p = l_False
              then (Div_section, None, search_undivide (cancelUntil s 0))
              else (Prop, Some p, s)
      else (Prop, None, s))"
  by pat_completeness auto
termination
  by (relation "measure (\<lambda>s. length (assumptions s) - decisionLevel s)")
     (simp_all add: newDecisionLevel_def decisionLevel_def)

declare search_assume.simps [simp del]

definition search_decide :: "solver \<Rightarrow> (search_ctl \<times> solver)" where
  "search_decide s =
     (case search_assume s of
        (Div_section, _, s1) \<Rightarrow> (Div_section, s1)
      | (_, Some next, s1) \<Rightarrow> (Prop, uncheckedEnqueue (newDecisionLevel s1) next None)
      | (_, None, s1) \<Rightarrow>
          (let r = pickBranchLit (s1\<lparr>decisions := decisions s1 + 1\<rparr>);
               s2 = snd r
           in case fst r of
                None \<Rightarrow>
                  (let s3 = s2\<lparr>nbModels := nbModels s2 + 1\<rparr>
                   in if decisionLevel s3 = 0 then (Div_section, search_undivide s3)
                      else (Prop, search_flip s3))
              | Some next \<Rightarrow> (Prop, uncheckedEnqueue (newDecisionLevel s2) next None)))"

definition search_div_section ::
  "(solver \<Rightarrow> solver) \<Rightarrow> cooperation \<Rightarrow> solver \<Rightarrow> (search_ctl \<times> solver) option" where
  "search_div_section garbage coop s =
     (if diviser_state s = 0
      then (if ind s < length (allItems s)
            then do {
              s1 \<leftarrow> search_advance garbage coop (reduceDB (s\<lparr>ok := True\<rparr>));
              if ind s1 \<ge> length (allItems s1) then Some (Return l_False, s1)
              else Some (Prop, s1\<lparr>diviser_state := 1, ind := ind s1 + nbThreads coop\<rparr>)
            }
            else Some (Return l_False, s))
      else if totalWeight s < coop_min_supp coop
      then (let s1 = s\<lparr>conflicts := conflicts s + 1\<rparr>
            in if decisionLevel s1 = 0 then Some (Div_section, search_undivide s1)
               else Some (Prop, search_flip s1))
      else Some (search_decide s))"

definition search_step ::
  "(solver \<Rightarrow> solver) \<Rightarrow> cooperation \<Rightarrow> search_ctl \<Rightarrow> solver \<Rightarrow> (search_ctl \<times> solver) option" where
  "search_step garbage coop ctl s =
     (case ctl of
        Prop \<Rightarrow> search_prop s
      | Div_section \<Rightarrow> search_div_section garbage coop s
      | Return b \<Rightarrow> Some (Return b, s))"

partial_function (option) search_loop ::
  "(solver \<Rightarrow> solver) \<Rightarrow> cooperation \<Rightarrow> search_ctl \<Rightarrow> solver \<Rightarrow> (lbool \<times> solver) option" where
  "search_loop garbage coop ctl s =
     (case ctl of
        Return b \<Rightarrow> Some (b, s)
      | Prop \<Rightarrow> Option.bind (search_step garbage coop Prop s)
                  (\<lambda>r. search_loop garbage coop (fst r) (snd r))
      | Div_section \<Rightarrow> Option.bind (search_step garbage coop Div_section s)
                  (\<lambda>r. search_loop garbage coop (fst r) (snd r)))"

definition search :: "(solver \<Rightarrow> solver) \<Rightarrow> cooperation \<Rightarrow> solver \<Rightarrow> (lbool \<times> solver) option" where
  "search garbage coop s = search_loop garbage coop Prop (s\<lparr>ind := ind s + nbThreads coop\<rparr>)"


lemma cancelUntil_body_frame [simp]:
  "ca (cancelUntil_body c s) = ca s"
  "clauses (cancelUntil_body c s) = clauses s"
  "learnts (cancelUntil_body c s) = learnts s"
  "ok (cancelUntil_body c s) = ok s"
  "diviser_state (cancelUntil_body c s) = diviser_state s"
  by (simp_all add: cancelUntil_body_def insertVarOrder_def Let_def)

lemma cancelAll_body_frame [simp]:
  "ca (cancelAll_body c s) = ca s"
  "clauses (cancelAll_body c s) = clauses s"
  "learnts (cancelAll_body c s) = learnts s"
  "ok (cancelAll_body c s) = ok s"
  "diviser_state (cancelAll_body c s) = diviser_state s"
  by (simp_all add: cancelAll_body_def insertVarOrder_def Let_def)

lemma fold_cancelUntil_body_frame:
  "ca (fold cancelUntil_body xs s) = ca s \<and> clauses (fold cancelUntil_body xs s) = clauses s \<and>
   learnts (fold cancelUntil_body xs s) = learnts s \<and> ok (fold cancelUntil_body xs s) = ok s \<and>
   diviser_state (fold cancelUntil_body xs s) = diviser_state s \<and>
   trail (fold cancelUntil_body xs s) = trail s \<and>
   trail_lim (fold cancelUntil_body xs s) = trail_lim s"
  by (induction xs arbitrary: s) simp_all

lemma fold_cancelAll_body_frame:
  "ca (fold cancelAll_body xs s) = ca s \<and> clauses (fold cancelAll_body xs s) = clauses s \<and>
   learnts (fold cancelAll_body xs s) = learnts s \<and> ok (fold cancelAll_body xs s) = ok s \<and>
   diviser_state (fold cancelAll_body xs s) = diviser_state s"
  by (induction xs arbitrary: s) simp_all

lemma cancelUntil_frame:
  "ca (cancelUntil s lvl) = ca s" "clauses (cancelUntil s lvl) = clauses s"
  "learnts (cancelUntil s lvl) = learnts s" "ok (cancelUntil s lvl) = ok s"
  "diviser_state (cancelUntil s lvl) = diviser_state s"
  by (simp_all add: cancelUntil_def Let_def fold_cancelUntil_body_frame)

lemma cancelUntil_trail:
  "lvl < decisionLevel s \<Longrightarrow> trail (cancelUntil s lvl) = take (trail_lim s ! lvl) (trail s)"
  "lvl < decisionLevel s \<Longrightarrow> trail_lim (cancelUntil s lvl) = take lvl (trail_lim s)"
  "lvl < decisionLevel s \<Longrightarrow> qhead (cancelUntil s lvl) = trail_lim s ! lvl"
  by (simp_all add: cancelUntil_def Let_def fold_cancelUntil_body_frame)

lemma cancelAll_frame:
  "ca (cancelAll s) = ca s" "clauses (cancelAll s) = clauses s"
  "learnts (cancelAll s) = learnts s" "ok (cancelAll s) = ok s"
  "diviser_state (cancelAll s) = diviser_state s"
  "trail (cancelAll s) = []" "trail_lim (cancelAll s) = []" "qhead (cancelAll s) = 0"
  by (simp_all add: cancelAll_def Let_def fold_cancelAll_body_frame)

lemma uncheckedEnqueue_frame [simp]:
  "ca (uncheckedEnqueue s p from) = ca s" "clauses (uncheckedEnqueue s p from) = clauses s"
  "learnts (uncheckedEnqueue s p from) = learnts s" "ok (uncheckedEnqueue s p from) = ok s"
  "diviser_state (uncheckedEnqueue s p from) = diviser_state s"
  "reason (uncheckedEnqueue s p from) = (reason s)(var p := from)"
  "level (uncheckedEnqueue s p from) = (level s)(var p := decisionLevel s)"
  by (simp_all add: uncheckedEnqueue_def Let_def)

lemma decisionLevel_upd [simp]:
  "decisionLevel (s\<lparr>conflicts := c\<rparr>) = decisionLevel s"
  "decisionLevel (s\<lparr>diviser_state := d\<rparr>) = decisionLevel s"
  "decisionLevel (s\<lparr>nbModels := m\<rparr>) = decisionLevel s"
  "decisionLevel (s\<lparr>decisions := n\<rparr>) = decisionLevel s"
  by (simp_all add: decisionLevel_def)

lemma search_flip_facts:
  assumes "0 < decisionLevel s"
  shows "trail (search_flip s) =
           take (last (trail_lim s)) (trail s) @ [neg (trail s ! last (trail_lim s))]"
    and "trail_lim (search_flip s) = butlast (trail_lim s)"
    and "decisionLevel (search_flip s) = decisionLevel s - 1"
    and "value (search_flip s) (neg (trail s ! last (trail_lim s))) = l_True"
    and "reason (search_flip s) (var (trail s ! last (trail_lim s))) = None"
    and "level (search_flip s) (var (trail s ! last (trail_lim s))) = decisionLevel s - 1"
    and "ca (search_flip s) = ca s" "clauses (search_flip s) = clauses s"
    and "learnts (search_flip s) = learnts s"
proof -
  from assms have ne: "trail_lim s \<noteq> []" by (simp add: decisionLevel_def)
  then have l: "trail_lim s ! (length (trail_lim s) - Suc 0) = last (trail_lim s)"
    by (simp add: last_conv_nth)
  have d: "decisionLevel s - Suc 0 < decisionLevel s" using assms by simp
  have l2: "trail_lim s ! (decisionLevel s - Suc 0) = last (trail_lim s)"
    using l by (simp add: decisionLevel_def)
  note t = cancelUntil_trail [OF d]
  show "trail (search_flip s) =
           take (last (trail_lim s)) (trail s) @ [neg (trail s ! last (trail_lim s))]"
    by (simp add: search_flip_def Let_def l t l2)
  have dl: "decisionLevel (cancelUntil s (decisionLevel s - Suc 0)) = decisionLevel s - Suc 0"
    unfolding decisionLevel_def using t(2) [unfolded decisionLevel_def] by simp
  have "trail_lim (search_flip s) = take (decisionLevel s - Suc 0) (trail_lim s)"
    by (simp add: search_flip_def Let_def t)
  then show tl: "trail_lim (search_flip s) = butlast (trail_lim s)"
    by (simp add: butlast_conv_take decisionLevel_def)
  show "decisionLevel (search_flip s) = decisionLevel s - 1"
    by (simp add: decisionLevel_def tl)
  show "value (search_flip s) (neg (trail s ! last (trail_lim s))) = l_True"
    by (simp add: search_flip_def Let_def l value_True_iff)
  show "reason (search_flip s) (var (trail s ! last (trail_lim s))) = None"
    by (simp add: search_flip_def Let_def l neg_def)
  show "level (search_flip s) (var (trail s ! last (trail_lim s))) = decisionLevel s - 1"
    by (simp add: search_flip_def Let_def l neg_def dl)
  show "ca (search_flip s) = ca s" "clauses (search_flip s) = clauses s"
    "learnts (search_flip s) = learnts s"
    by (simp_all add: search_flip_def Let_def cancelUntil_frame)
qed

section \<open>Properties of the guiding-path encoder\<close>

lemma egp_path_loop:
  "n \<le> length (allItems s) \<Longrightarrow>
   (let s' = fold egp_path_step [0 ..< n] s
    in trail s' = trail s @ map neg (take n (allItems s)) \<and>
       allItems s' = allItems s \<and> trail_lim s' = trail_lim s \<and> ca s' = ca s \<and>
       clauses s' = clauses s \<and> items s' = items s \<and>
       (\<forall>l \<in> set (take n (allItems s)).
          level s' (var l) = decisionLevel s \<and> reason s' (var l) = None) \<and>
       (distinct (map var (take n (allItems s))) \<longrightarrow>
          (\<forall>l \<in> set (take n (allItems s)). value s' l = l_False)) \<and>
       (\<forall>v. v \<notin> var ` set (take n (allItems s)) \<longrightarrow> assigns s' v = assigns s v))"
proof (induction n)
  case 0
  show ?case by simp
next
  case (Suc n)
  define s1 where "s1 = fold egp_path_step [0 ..< n] s"
  define x where "x = allItems s ! n"
  from Suc.prems have n: "n < length (allItems s)" by simp
  from Suc.IH n have IH:
    "trail s1 = trail s @ map neg (take n (allItems s))" "allItems s1 = allItems s"
    "trail_lim s1 = trail_lim s" "ca s1 = ca s" "clauses s1 = clauses s" "items s1 = items s"
    "\<forall>l \<in> set (take n (allItems s)). level s1 (var l) = decisionLevel s \<and> reason s1 (var l) = None"
    "distinct (map var (take n (allItems s))) \<longrightarrow>
          (\<forall>l \<in> set (take n (allItems s)). value s1 l = l_False)"
    "\<forall>v. v \<notin> var ` set (take n (allItems s)) \<longrightarrow> assigns s1 v = assigns s v"
    by (simp_all add: Let_def s1_def)
  define s2 where "s2 = egp_path_step n s1"
  have f: "fold egp_path_step [0 ..< Suc n] s = s2" by (simp add: s2_def s1_def)
  have tk: "take (Suc n) (allItems s) = take n (allItems s) @ [x]"
    using n by (simp add: take_Suc_conv_app_nth x_def)
  have s2: "trail s2 = trail s1 @ [neg x]" "allItems s2 = allItems s1"
    "trail_lim s2 = trail_lim s1" "ca s2 = ca s1" "clauses s2 = clauses s1" "items s2 = items s1"
    "level s2 = (level s1)(var x := decisionLevel s)" "reason s2 = (reason s1)(var x := None)"
    "assigns s2 = (assigns s1)(var x := lbool_of (sign x))"
    by (simp_all add: s2_def egp_path_step_def IH(2) x_def uncheckedEnqueue_def Let_def neg_def
        decisionLevel_def IH(3))
  have v: "value s2 x = l_False"
    by (cases "sign x") (simp_all add: value_def s2(9))
  have a: "trail s2 = trail s @ map neg (take (Suc n) (allItems s))"
    by (simp add: s2 IH tk)
  have b: "\<forall>l \<in> set (take (Suc n) (allItems s)).
          level s2 (var l) = decisionLevel s \<and> reason s2 (var l) = None"
    using IH(7) by (auto simp: tk s2)
  have c: "distinct (map var (take (Suc n) (allItems s))) \<longrightarrow>
          (\<forall>l \<in> set (take (Suc n) (allItems s)). value s2 l = l_False)"
  proof (intro impI ballI)
    fix l assume d: "distinct (map var (take (Suc n) (allItems s)))"
      and l: "l \<in> set (take (Suc n) (allItems s))"
    show "value s2 l = l_False"
    proof (cases "l \<in> set (take n (allItems s))")
      case True
      from d have "var x \<notin> var ` set (take n (allItems s))" by (simp add: tk)
      with True have "var l \<noteq> var x" by (metis imageI)
      moreover from d IH(8) True have "value s1 l = l_False" by (simp add: tk)
      ultimately show ?thesis by (simp add: value_def s2(9))
    next
      case False
      with l have "l = x" by (simp add: tk)
      with v show ?thesis by simp
    qed
  qed
  have e: "\<forall>v. v \<notin> var ` set (take (Suc n) (allItems s)) \<longrightarrow> assigns s2 v = assigns s v"
    using IH(9) by (auto simp: tk s2(9))
  show ?case
    unfolding f Let_def
    using a b c e by (simp add: s2 IH)
qed


text \<open>
  Claim C6. For an index \<open>k\<close> of the item list, called at decision level 0 (as
  \<^verbatim>\<open>solve_\<close> and \<^verbatim>\<open>search\<close> do): when the total weight \<^verbatim>\<open>wocc\<close> of the head item
  \<^verbatim>\<open>allItems[k-1]\<close> is below \<^verbatim>\<open>min_supp\<close>, \<^verbatim>\<open>encodeGuidingPath\<close> returns false in the
  state it was called in, but for \<^verbatim>\<open>items\<close>, which it has cleared: nothing is enqueued
  and no clause added. Otherwise the state \<open>s1\<close> in which the encoding of the
  sub-database starts has the negations of \<^verbatim>\<open>allItems[0 .. k-2]\<close> and then
  \<^verbatim>\<open>allItems[k-1]\<close> appended to the trail, all at level 0 and without reason, and the
  clauses are still untouched; when the variables of these items are distinct the
  predecessors are false and the head is true.
\<close>

theorem encodeGuidingPath_head:
  assumes "1 \<le> k" and "k \<le> length (allItems s)" and "decisionLevel s = 0"
    and "p = allItems s ! (k - 1)" and "s1 = egp_path (s\<lparr>items := []\<rparr>) k"
  shows "if wocc coop (var p) < coop_min_supp coop
         then encodeGuidingPath garbage coop k s = Some (False, s\<lparr>items := []\<rparr>)
         else encodeGuidingPath garbage coop k s = egp_continue garbage coop k p s1 \<and>
              trail s1 = trail s @ map neg (take (k - 1) (allItems s)) @ [p] \<and>
              (\<forall>l \<in> set (take k (allItems s)). level s1 (var l) = 0 \<and> reason s1 (var l) = None) \<and>
              decisionLevel s1 = 0 \<and> ca s1 = ca s \<and> clauses s1 = clauses s \<and>
              (distinct (map var (take k (allItems s))) \<longrightarrow>
                 (\<forall>l \<in> set (take (k - 1) (allItems s)). value s1 l = l_False) \<and>
                 value s1 p = l_True)"
proof (cases "wocc coop (var p) < coop_min_supp coop")
  case True
  then show ?thesis by (simp add: encodeGuidingPath_def Let_def assms(4))
next
  case False
  define s0 where "s0 = s\<lparr>items := []\<rparr>"
  define s' where "s' = fold egp_path_step [0 ..< k - 1] s0"
  have k1: "k - 1 \<le> length (allItems s0)" "k - 1 < length (allItems s)"
    using assms(1,2) by (simp_all add: s0_def)
  from egp_path_loop [OF k1(1)] have L:
    "trail s' = trail s @ map neg (take (k - 1) (allItems s))" "allItems s' = allItems s"
    "trail_lim s' = trail_lim s" "ca s' = ca s" "clauses s' = clauses s"
    "\<forall>l \<in> set (take (k - 1) (allItems s)). level s' (var l) = 0 \<and> reason s' (var l) = None"
    "distinct (map var (take (k - 1) (allItems s))) \<longrightarrow>
          (\<forall>l \<in> set (take (k - 1) (allItems s)). value s' l = l_False)"
    "\<forall>v. v \<notin> var ` set (take (k - 1) (allItems s)) \<longrightarrow> assigns s' v = assigns s v"
    using assms(3) by (simp_all add: Let_def s'_def s0_def decisionLevel_def)
  have s1: "s1 = uncheckedEnqueue s' p None"
    by (simp only: assms(5) egp_path_def Let_def s0_def [symmetric] s'_def [symmetric] L(2)
        assms(4))
  have tk: "take k (allItems s) = take (k - 1) (allItems s) @ [p]"
    using take_Suc_conv_app_nth [OF k1(2)] assms(1) by (simp add: assms(4))
  have dl: "decisionLevel s' = 0" using assms(3) by (simp add: decisionLevel_def L(3))
  have a: "encodeGuidingPath garbage coop k s = egp_continue garbage coop k p s1"
    using False by (simp add: encodeGuidingPath_def Let_def assms(4) assms(5))
  have b: "trail s1 = trail s @ map neg (take (k - 1) (allItems s)) @ [p]"
    by (simp add: s1 L(1))
  have c: "\<forall>l \<in> set (take k (allItems s)). level s1 (var l) = 0 \<and> reason s1 (var l) = None"
    using L(6) by (auto simp: tk s1 dl)
  have d: "decisionLevel s1 = 0" "ca s1 = ca s" "clauses s1 = clauses s"
    using dl by (simp_all add: s1 L decisionLevel_def)
  have e: "distinct (map var (take k (allItems s))) \<longrightarrow>
                 (\<forall>l \<in> set (take (k - 1) (allItems s)). value s1 l = l_False) \<and>
                 value s1 p = l_True"
  proof (intro impI conjI ballI)
    assume dist: "distinct (map var (take k (allItems s)))"
    show "value s1 p = l_True" by (simp add: s1 value_True_iff)
    fix l assume l: "l \<in> set (take (k - 1) (allItems s))"
    from dist have "var p \<notin> var ` set (take (k - 1) (allItems s))" by (simp add: tk)
    with l have "var l \<noteq> var p" by (metis imageI)
    moreover from dist L(7) l have "value s' l = l_False" by (simp add: tk)
    ultimately show "value s1 l = l_False" by (simp add: s1 value_def)
  qed
  show ?thesis using False a b c d e by simp
qed

text \<open>
  Two items and one transaction holding both; item 0 has total weight 1, item 1 has 3,
  and the minimum support is 2.
\<close>

definition path_example :: solver where
  "path_example = init_solver\<lparr>nVars := 3, nbItems := 2, nbTrans := 1,
     decision := (\<lambda>v. v < 2), allItems := [mkLit 0 False, mkLit 1 False],
     items := [mkLit 0 False]\<rparr>"

definition path_coop :: cooperation where
  "path_coop = \<lparr>nbThreads = 1, coop_min_supp = 2, wocc = (\<lambda>_. 0)(0 := 1, 1 := 3),
     appearTrans = (\<lambda>_. [])(0 := [0], 1 := [0]),
     list_transactions = (\<lambda>_. [])(0 := [mkLit 0 False, mkLit 1 False]),
     wItemTrans = (\<lambda>_. [])(0 := [1, 3]), enum_clos = 0, div_begining = 0\<rparr>"

theorem encodeGuidingPath_head_witness:
  "encodeGuidingPath (\<lambda>s. s) path_coop 1 path_example = Some (False, path_example\<lparr>items := []\<rparr>) \<and>
   encodeGuidingPath (\<lambda>s. s) path_coop 2 path_example =
     egp_continue (\<lambda>s. s) path_coop 2 (mkLit 1 False) (egp_path (path_example\<lparr>items := []\<rparr>) 2) \<and>
   trail (egp_path (path_example\<lparr>items := []\<rparr>) 2) = [mkLit 0 True, mkLit 1 False] \<and>
   level (egp_path (path_example\<lparr>items := []\<rparr>) 2) 0 = 0 \<and>
   value (egp_path (path_example\<lparr>items := []\<rparr>) 2) (mkLit 0 False) = l_False \<and>
   value (egp_path (path_example\<lparr>items := []\<rparr>) 2) (mkLit 1 False) = l_True"
proof -
  have h: "(1::nat) \<le> 1" "1 \<le> length (allItems path_example)" "(1::nat) \<le> 2"
    "2 \<le> length (allItems path_example)" "decisionLevel path_example = 0"
    by (simp_all add: path_example_def init_solver_def decisionLevel_def)
  have p: "allItems path_example ! 0 = mkLit 0 False"
    "allItems path_example ! Suc 0 = mkLit 1 False"
    "take (Suc 0) (allItems path_example) = [mkLit 0 False]"
    "take 2 (allItems path_example) = [mkLit 0 False, mkLit 1 False]"
    "trail path_example = []"
    by (simp_all add: path_example_def init_solver_def)
  have w: "wocc path_coop (var (mkLit 0 False)) < coop_min_supp path_coop"
    "\<not> wocc path_coop (var (mkLit 1 False)) < coop_min_supp path_coop"
    by (simp_all add: path_coop_def)
  from encodeGuidingPath_head [OF h(1) h(2) h(5) refl refl, of path_coop "\<lambda>s. s"]
  have a: "encodeGuidingPath (\<lambda>s. s) path_coop 1 path_example =
           Some (False, path_example\<lparr>items := []\<rparr>)"
    using w(1) by (simp add: p)
  from encodeGuidingPath_head [OF h(3) h(4) h(5) refl refl, of path_coop "\<lambda>s. s"]
  have b: "encodeGuidingPath (\<lambda>s. s) path_coop 2 path_example =
     egp_continue (\<lambda>s. s) path_coop 2 (mkLit 1 False) (egp_path (path_example\<lparr>items := []\<rparr>) 2) \<and>
   trail (egp_path (path_example\<lparr>items := []\<rparr>) 2) = [mkLit 0 True, mkLit 1 False] \<and>
   level (egp_path (path_example\<lparr>items := []\<rparr>) 2) 0 = 0 \<and>
   value (egp_path (path_example\<lparr>items := []\<rparr>) 2) (mkLit 0 False) = l_False \<and>
   value (egp_path (path_example\<lparr>items := []\<rparr>) 2) (mkLit 1 False) = l_True"
    using w(2) by (simp add: p)
  from a b show ?thesis by simp
qed

section \<open>What propagation preserves, and when it returns\<close>

text \<open>
  \<open>same_static\<close>: the fields that propagation never writes. \<open>propagated s s'\<close>: the
  state \<open>s'\<close> differs from \<open>s\<close> as propagation allows: the static fields are the same,
  every assigned variable keeps its value, level and reason, and the trail only grows.
\<close>

definition same_static :: "solver \<Rightarrow> solver \<Rightarrow> bool" where
  "same_static s s' =
     (seen s' = seen s \<and> verbosity s' = verbosity s \<and> occ s' = occ s \<and> items s' = items s \<and>
      allItems s' = allItems s \<and> min_supp s' = min_supp s \<and> nVars s' = nVars s \<and>
      nbItems s' = nbItems s \<and> nbTrans s' = nbTrans s \<and> hu_wei s' = hu_wei s \<and>
      trail_lim s' = trail_lim s \<and> ok s' = ok s \<and> clauses s' = clauses s \<and>
      learnts s' = learnts s \<and> local_trans s' = local_trans s \<and>
      diviser_state s' = diviser_state s \<and> ind s' = ind s \<and> decision s' = decision s \<and>
      order_heap s' = order_heap s \<and> assumptions s' = assumptions s \<and>
      length (ca s') = length (ca s))"

definition propagated :: "solver \<Rightarrow> solver \<Rightarrow> bool" where
  "propagated s s' =
     (same_static s s' \<and>
      (\<forall>v. assigns s v \<noteq> l_Undef \<longrightarrow>
         assigns s' v = assigns s v \<and> level s' v = level s v \<and> reason s' v = reason s v) \<and>
      (\<exists>ys. trail s' = trail s @ ys))"

lemma propagated_refl [simp]: "propagated s s"
  by (simp add: propagated_def same_static_def)

lemma propagated_trans: "propagated s s' \<Longrightarrow> propagated s' s'' \<Longrightarrow> propagated s s''"
proof -
  assume a: "propagated s s'" and b: "propagated s' s''"
  have st: "same_static s s''" using a b by (simp add: propagated_def same_static_def)
  have as: "\<forall>v. assigns s v \<noteq> l_Undef \<longrightarrow>
         assigns s'' v = assigns s v \<and> level s'' v = level s v \<and> reason s'' v = reason s v"
    using a b by (simp add: propagated_def)
  from a obtain ys where "trail s' = trail s @ ys" by (auto simp: propagated_def)
  moreover from b obtain zs where "trail s'' = trail s' @ zs" by (auto simp: propagated_def)
  ultimately have "trail s'' = trail s @ (ys @ zs)" by simp
  then have tr: "\<exists>ys. trail s'' = trail s @ ys" by blast
  show ?thesis using st as tr by (simp add: propagated_def)
qed

lemma propagated_set_lits [simp]: "propagated s (set_lits s cr ls)"
  by (simp add: propagated_def same_static_def set_lits_def)

lemma propagated_enqueue:
  "value s p = l_Undef \<Longrightarrow> propagated s (uncheckedEnqueue s p from)"
  by (auto simp: propagated_def same_static_def uncheckedEnqueue_def Let_def value_Undef_iff)

lemma propagated_upd [simp]:
  "propagated s (s\<lparr>qhead := q\<rparr>)"
  "propagated s (s\<lparr>watches := w\<rparr>)"
  "propagated s (s\<lparr>dirties := d\<rparr>)"
  "propagated s (s\<lparr>propagations := n, simpDB_props := m\<rparr>)"
  by (simp_all add: propagated_def same_static_def)

lemma value_not_True_False: "value s p \<noteq> l_True \<Longrightarrow> value s p \<noteq> l_False \<Longrightarrow> value s p = l_Undef"
  by (cases "value s p") simp_all

lemma propagate_watcher_propagated:
  "propagated s (snd (snd (propagate_watcher p wi s)))"
proof -
  define c where "c = arrange s p (cref wi)"
  define s1 where "s1 = set_lits s (cref wi) c"
  have p1: "propagated s s1" by (simp add: s1_def)
  have p2: "propagated s (s1\<lparr>qhead := q\<rparr>)" for q
    by (simp add: s1_def propagated_def same_static_def set_lits_def)
  have p3: "propagated s ((set_lits s1 cr ls)\<lparr>watches := w\<rparr>)" for cr ls w
    by (simp add: s1_def propagated_def same_static_def set_lits_def)
  have p4: "value s (blocker wi) \<noteq> l_True \<Longrightarrow> c ! 0 = blocker wi \<Longrightarrow>
      value s (c ! 0) \<noteq> l_False \<Longrightarrow> propagated s (uncheckedEnqueue s1 (c ! 0) from)" for "from"
  proof -
    assume "value s (blocker wi) \<noteq> l_True" "c ! 0 = blocker wi" "value s (c ! 0) \<noteq> l_False"
    then have "value s1 (c ! 0) = l_Undef"
      by (intro value_not_True_False) (simp_all add: s1_def)
    then have "propagated s1 (uncheckedEnqueue s1 (c ! 0) from)" by (rule propagated_enqueue)
    with p1 show ?thesis by (rule propagated_trans)
  qed
  show ?thesis
    unfolding propagate_watcher_def Let_def c_def [symmetric] s1_def [symmetric]
    using p1 p2 p3 p4 by (auto split: option.splits simp: s1_def)
qed

lemma propagate_watchers_propagated:
  "propagated s (snd (snd (propagate_watchers p ws kept confl s)))"
proof (induction ws arbitrary: kept s)
  case Nil
  show ?case by (simp add: propagate_watchers.simps)
next
  case (Cons wi rest)
  obtain ws cf s' where r: "propagate_watcher p wi s = (ws, cf, s')"
    by (cases "propagate_watcher p wi s") auto
  have a: "propagated s s'" using propagate_watcher_propagated [of s p wi] by (simp add: r)
  show ?case
  proof (cases cf)
    case None
    with r a Cons.IH [of s' "kept @ ws"] show ?thesis
      by (simp add: propagate_watchers.simps) (metis propagated_trans)
  next
    case (Some cr)
    with r a show ?thesis by (simp add: propagate_watchers.simps)
  qed
qed

lemma propagate_lit_propagated: "propagated s (snd (propagate_lit confl s))"
proof -
  have "propagated s (s\<lparr>qhead := qhead s + 1\<rparr>)" by simp
  moreover have "propagated (s\<lparr>qhead := qhead s + 1\<rparr>)
     (snd (snd (propagate_watchers (trail s ! qhead s)
        (watches (s\<lparr>qhead := qhead s + 1\<rparr>) (trail s ! qhead s)) [] confl
        (s\<lparr>qhead := qhead s + 1\<rparr>))))"
    by (rule propagate_watchers_propagated)
  ultimately have "propagated s (snd (snd (propagate_watchers (trail s ! qhead s)
        (watches (s\<lparr>qhead := qhead s + 1\<rparr>) (trail s ! qhead s)) [] confl
        (s\<lparr>qhead := qhead s + 1\<rparr>))))"
    by (rule propagated_trans)
  then show ?thesis
    by (simp add: propagate_lit_def Let_def propagated_def same_static_def)
qed

lemma propagate_loop_propagated:
  assumes "propagate_loop confl n s = Some r"
  shows "propagated s (snd (snd r))"
proof (rule propagate_loop.raw_induct
    [where P = "\<lambda>confl n s r. propagated s (snd (snd r))", OF _ assms])
  fix loop :: "cref option \<Rightarrow> nat \<Rightarrow> solver \<Rightarrow> (cref option \<times> nat \<times> solver) option"
    and confl n s r
  assume IH: "\<And>c n s y. loop c n s = Some y \<Longrightarrow> propagated s (snd (snd y))"
    and eq: "(if qhead s < length (trail s)
      then loop (fst (propagate_lit confl s)) (n + 1) (snd (propagate_lit confl s))
      else Some (confl, n, s)) = Some r"
  show "propagated s (snd (snd r))"
  proof (cases "qhead s < length (trail s)")
    case True
    with eq IH have "propagated (snd (propagate_lit confl s)) (snd (snd r))" by simp
    with propagate_lit_propagated show ?thesis by (rule propagated_trans)
  next
    case False
    with eq show ?thesis by auto
  qed
qed

lemma fold_clean_propagated: "propagated s (fold clean xs s)"
proof (induction xs arbitrary: s)
  case Nil
  show ?case by simp
next
  case (Cons x xs)
  have "propagated s (clean x s)" by (simp add: clean_def)
  then show ?case using Cons.IH [of "clean x s"] by (simp) (metis propagated_trans)
qed

lemma cleanAll_propagated: "propagated s (cleanAll s)"
proof -
  have "propagated (fold clean (dirties s) s) (cleanAll s)" by (simp add: cleanAll_def)
  with fold_clean_propagated show ?thesis by (rule propagated_trans)
qed

lemma propagate_propagated:
  assumes "propagate s = Some (confl, s')"
  shows "propagated s s'"
proof -
  from assms obtain n s1 where l: "propagate_loop None 0 (cleanAll s) = Some (confl, n, s1)"
    and s': "s' = s1\<lparr>propagations := propagations s1 + n,
                      simpDB_props := simpDB_props s1 - int n\<rparr>"
    by (auto simp: propagate_def split: option.splits)
  from propagate_loop_propagated [OF l] have "propagated (cleanAll s) s1" by simp
  with cleanAll_propagated have "propagated s s1" by (rule propagated_trans)
  moreover have "propagated s1 s'" by (simp add: s')
  ultimately show ?thesis by (rule propagated_trans)
qed

text \<open>
  The well-formedness that makes \<^verbatim>\<open>propagate\<close> return: every clause of the arena has two
  literals or more, over existing variables; every watcher refers to a clause of the
  arena; the literals of the trail are over existing variables; and \<^verbatim>\<open>qhead\<close> is within
  the trail. The measure that decreases with every dequeued literal counts the
  unassigned variables twice and the pending literals once.
\<close>

definition prop_wf :: "solver \<Rightarrow> bool" where
  "prop_wf s =
     ((\<forall>c \<in> set (ca s). 2 \<le> length (lits c) \<and> (\<forall>l \<in> set (lits c). var l < nVars s)) \<and>
      (\<forall>p. \<forall>w \<in> set (watches s p). cref w < length (ca s)) \<and>
      (\<forall>l \<in> set (trail s). var l < nVars s) \<and>
      qhead s \<le> length (trail s))"

definition undef_vars :: "solver \<Rightarrow> nat" where
  "undef_vars s = card {v. v < nVars s \<and> assigns s v = l_Undef}"

definition prop_measure :: "solver \<Rightarrow> nat" where
  "prop_measure s = 2 * undef_vars s + (length (trail s) - qhead s)"

lemma undef_vars_enqueue:
  assumes "var p < nVars s" "assigns s (var p) = l_Undef"
  shows "Suc (undef_vars (uncheckedEnqueue s p from)) = undef_vars s"
proof -
  define A where "A = {v. v < nVars s \<and> assigns s v = l_Undef}"
  define x where "x = lbool_of (\<not> sign p)"
  have x: "x \<noteq> l_Undef" by (simp add: x_def lbool_of_def)
  have fin: "finite A" by (simp add: A_def)
  have mem: "var p \<in> A" using assms by (simp add: A_def)
  have "{v. v < nVars s \<and> ((assigns s)(var p := x)) v = l_Undef} = A - {var p}"
  proof (rule set_eqI)
    fix v
    show "v \<in> {v. v < nVars s \<and> ((assigns s)(var p := x)) v = l_Undef} \<longleftrightarrow> v \<in> A - {var p}"
      using x by (cases "v = var p") (simp_all add: A_def)
  qed
  then have "undef_vars (uncheckedEnqueue s p from) = card (A - {var p})"
    by (simp add: undef_vars_def x_def)
  also have "Suc \<dots> = card A" using fin mem by (rule card_Suc_Diff1)
  finally show ?thesis by (simp add: undef_vars_def A_def)
qed

lemma undef_vars_cong:
  "nVars s' = nVars s \<Longrightarrow> assigns s' = assigns s \<Longrightarrow> undef_vars s' = undef_vars s"
  by (simp add: undef_vars_def)


lemma set_lits_wf:
  assumes "prop_wf s" "cr < length (ca s)" "length ls = length (lits (ca s ! cr))"
    "\<forall>l \<in> set ls. var l < nVars s"
  shows "prop_wf (set_lits s cr ls)"
proof -
  have "\<forall>c \<in> set ((ca s)[cr := (ca s ! cr)\<lparr>lits := ls\<rparr>]).
          2 \<le> length (lits c) \<and> (\<forall>l \<in> set (lits c). var l < nVars s)"
  proof
    fix c assume "c \<in> set ((ca s)[cr := (ca s ! cr)\<lparr>lits := ls\<rparr>])"
    then have "c = (ca s ! cr)\<lparr>lits := ls\<rparr> \<or> c \<in> set (ca s)"
      using set_update_subset_insert [of "ca s" cr] by auto
    moreover have "ca s ! cr \<in> set (ca s)" using assms(2) by simp
    ultimately show "2 \<le> length (lits c) \<and> (\<forall>l \<in> set (lits c). var l < nVars s)"
      using assms(1,3,4) by (auto simp: prop_wf_def)
  qed
  then show ?thesis using assms(1) by (simp add: prop_wf_def set_lits_def)
qed

lemma arrange_facts:
  assumes "prop_wf s" "cr < length (ca s)" "var p < nVars s"
  shows "length (arrange s p cr) = length (lits (ca s ! cr))"
    and "\<forall>l \<in> set (arrange s p cr). var l < nVars s"
    and "2 \<le> length (arrange s p cr)"
proof -
  let ?c = "lits (ca s ! cr)"
  have m: "ca s ! cr \<in> set (ca s)" using assms(2) by simp
  with assms(1) have c: "2 \<le> length ?c" "\<forall>l \<in> set ?c. var l < nVars s"
    by (simp_all add: prop_wf_def)
  show "length (arrange s p cr) = length ?c" by (simp add: arrange_def Let_def)
  then show "2 \<le> length (arrange s p cr)" using c(1) by simp
  have "set (arrange s p cr) \<subseteq> insert (neg p) (insert (?c ! 1) (set ?c))"
    using set_update_subset_insert [of "?c[0 := ?c ! 1]" 1 "neg p"]
      set_update_subset_insert [of ?c 0 "?c ! 1"]
    by (auto simp: arrange_def Let_def)
  moreover have "?c ! 1 \<in> set ?c" using c(1) by simp
  moreover have "var (neg p) < nVars s" using assms(3) by (simp add: neg_def)
  ultimately show "\<forall>l \<in> set (arrange s p cr). var l < nVars s" using c(2) by blast
qed


lemma prop_wf_upd:
  "prop_wf s \<Longrightarrow> q \<le> length (trail s) \<Longrightarrow> prop_wf (s\<lparr>qhead := q\<rparr>)"
  "prop_wf s \<Longrightarrow> \<forall>w \<in> set ws. cref w < length (ca s) \<Longrightarrow>
     prop_wf (s\<lparr>watches := (watches s)(p := ws)\<rparr>)"
  by (simp_all add: prop_wf_def)

lemma prop_wf_enqueue:
  "prop_wf s \<Longrightarrow> var p < nVars s \<Longrightarrow> prop_wf (uncheckedEnqueue s p from)"
  by (simp add: prop_wf_def uncheckedEnqueue_def Let_def)

lemma prop_measure_facts:
  "prop_measure (set_lits s cr ls) = prop_measure s"
  "prop_measure (s\<lparr>watches := w\<rparr>) = prop_measure s"
  "prop_measure (s\<lparr>qhead := length (trail s)\<rparr>) \<le> prop_measure s"
  by (simp_all add: prop_measure_def undef_vars_def set_lits_def)

lemma prop_measure_enqueue:
  assumes "var p < nVars s" "value s p = l_Undef" "qhead s \<le> length (trail s)"
  shows "prop_measure (uncheckedEnqueue s p from) < prop_measure s"
proof -
  have "assigns s (var p) = l_Undef" using assms(2) by (simp add: value_Undef_iff)
  from undef_vars_enqueue [OF assms(1) this, of "from"] assms(3)
  show ?thesis by (simp add: prop_measure_def)
qed

lemma propagate_watcher_wf:
  assumes wf: "prop_wf s" and cr: "cref wi < length (ca s)" and p: "var p < nVars s"
    and r: "propagate_watcher p wi s = (ws, cf, s')"
  shows "prop_wf s'" and "\<forall>w \<in> set ws. cref w < length (ca s')"
    and "length (ca s') = length (ca s)" and "prop_measure s' \<le> prop_measure s"
proof -
  define c where "c = arrange s p (cref wi)"
  define s1 where "s1 = set_lits s (cref wi) c"
  note af = arrange_facts [OF wf cr p, folded c_def]
  have wf1: "prop_wf s1" unfolding s1_def using wf cr af(1) af(2) by (rule set_lits_wf)
  have l1: "length (ca s1) = length (ca s)" "nVars s1 = nVars s" "trail s1 = trail s"
    "qhead s1 = qhead s"
    by (simp_all add: s1_def set_lits_def)
  have cr1: "cref wi < length (ca s1)" using cr by (simp add: l1)
  have m1: "prop_measure s1 = prop_measure s" by (simp add: s1_def prop_measure_facts)
  have "0 < length c" using af(3) by linarith
  then have "c ! 0 \<in> set c" by (rule nth_mem)
  then have first: "var (c ! 0) < nVars s" using af(2) by blast
  have q1: "qhead s1 \<le> length (trail s1)" using wf1 by (simp add: prop_wf_def)
  have "prop_wf s' \<and> (\<forall>w \<in> set ws. cref w < length (ca s')) \<and>
        length (ca s') = length (ca s) \<and> prop_measure s' \<le> prop_measure s"
  proof (cases "value s (blocker wi) = l_True")
    case True
    with r wf cr show ?thesis by (auto simp: propagate_watcher_def)
  next
    case nb: False
    show ?thesis
    proof (cases "c ! 0 \<noteq> blocker wi")
      case True
      with nb r have "ws = [Watcher (cref wi) (c ! 0)]" "s' = s1"
        unfolding s1_def c_def
            by (auto simp: propagate_watcher_def Let_def split: if_splits)
      then show ?thesis using wf1 cr1 l1 m1 by simp
    next
      case eq: False
      show ?thesis
      proof (cases "find (\<lambda>k. value s1 (c ! k) \<noteq> l_False) [2 ..< length c]")
        case (Some k)
        define c2 where "c2 = c[1 := c ! k, k := neg p]"
        define s2 where "s2 = set_lits s1 (cref wi) c2"
        define s3 where "s3 = s2\<lparr>watches := (watches s2)(neg (c2 ! 1) :=
                                watches s2 (neg (c2 ! 1)) @ [Watcher (cref wi) (c ! 0)])\<rparr>"
        from Some have k: "k \<in> set [2 ..< length c]" by (auto simp: find_Some_iff)
        have "set c2 \<subseteq> insert (neg p) (insert (c ! k) (set c))"
          unfolding c2_def
          using set_update_subset_insert [of "c[1 := c ! k]" k "neg p"]
            set_update_subset_insert [of c 1 "c ! k"] by blast
        moreover have "c ! k \<in> set c" using k by simp
        moreover have "var (neg p) < nVars s" using p by (simp add: neg_def)
        ultimately have c2v: "\<forall>l \<in> set c2. var l < nVars s1" using af(2) l1 by auto
        have c2l: "length c2 = length (lits (ca s1 ! cref wi))"
          using cr by (simp add: c2_def s1_def set_lits_def)
        have wf2: "prop_wf s2" unfolding s2_def using wf1 cr1 c2l c2v by (rule set_lits_wf)
        have l2: "length (ca s2) = length (ca s)" by (simp add: s2_def set_lits_def l1)
        have wf3: "prop_wf s3"
          unfolding s3_def using wf2 cr l2 by (intro prop_wf_upd(2)) (auto simp: prop_wf_def)
        have m3: "prop_measure s3 = prop_measure s"
          by (simp add: s3_def s2_def prop_measure_facts m1)
        have "ws = []" "s' = s3"
          using nb eq Some r unfolding s3_def s2_def c2_def s1_def c_def
          by (auto simp: propagate_watcher_def Let_def)
        then show ?thesis using wf3 m3 l2 by (simp add: s3_def)
      next
        case None
        show ?thesis
        proof (cases "totalWeight s1 < min_supp s1 \<or> value s1 (c ! 0) = l_False")
          case True
          with nb eq None r have "ws = [Watcher (cref wi) (c ! 0)]"
            "s' = s1\<lparr>qhead := length (trail s1)\<rparr>"
            unfolding s1_def c_def
            by (auto simp: propagate_watcher_def Let_def split: if_splits)
          then show ?thesis
            using prop_wf_upd(1) [OF wf1 le_refl] cr1 l1 m1 prop_measure_facts(3) [of s1]
            by simp
        next
          case False
          with nb eq None r have e: "ws = [Watcher (cref wi) (c ! 0)]"
            "s' = uncheckedEnqueue s1 (c ! 0) (Some (cref wi))"
            unfolding s1_def c_def
            by (auto simp: propagate_watcher_def Let_def split: if_splits)
          have u: "value s1 (c ! 0) = l_Undef"
            using nb eq False by (intro value_not_True_False) (simp_all add: s1_def)
          have f1: "var (c ! 0) < nVars s1" using first by (simp add: l1)
          have "prop_measure s' < prop_measure s1"
            unfolding e using f1 u q1 by (rule prop_measure_enqueue)
          moreover have "prop_wf s'" unfolding e using wf1 f1 by (rule prop_wf_enqueue)
          ultimately show ?thesis using e cr1 l1 m1 by simp
        qed
      qed
    qed
  qed
  then show "prop_wf s'" and "\<forall>w \<in> set ws. cref w < length (ca s')"
    and "length (ca s') = length (ca s)" and "prop_measure s' \<le> prop_measure s"
    by auto
qed


lemma propagate_watchers_wf:
  assumes "prop_wf s" and "\<forall>w \<in> set ws. cref w < length (ca s)"
    and "\<forall>w \<in> set kept. cref w < length (ca s)" and "var p < nVars s"
    and "propagate_watchers p ws kept confl s = (ws', cf, s')"
  shows "prop_wf s' \<and> (\<forall>w \<in> set ws'. cref w < length (ca s')) \<and>
         prop_measure s' \<le> prop_measure s"
  using assms
proof (induction ws arbitrary: kept s)
  case Nil
  then show ?case by (simp add: propagate_watchers.simps)
next
  case (Cons wi rest)
  obtain ws1 cf1 s1 where r: "propagate_watcher p wi s = (ws1, cf1, s1)"
    by (cases "propagate_watcher p wi s") auto
  from Cons.prems(2) have cr: "cref wi < length (ca s)" by simp
  note st = propagate_watcher_wf [OF Cons.prems(1) cr Cons.prems(4) r]
  have n1: "nVars s1 = nVars s"
    using propagate_watcher_propagated [of s p wi] r
    by (simp add: propagated_def same_static_def)
  have valid: "\<forall>w \<in> set (kept @ ws1 @ rest). cref w < length (ca s1)"
    using st(2) st(3) Cons.prems(2,3) by auto
  show ?case
  proof (cases cf1)
    case None
    with r Cons.prems(5) have e: "propagate_watchers p rest (kept @ ws1) confl s1 = (ws', cf, s')"
      by (simp add: propagate_watchers.simps)
    have "prop_wf s' \<and> (\<forall>w \<in> set ws'. cref w < length (ca s')) \<and>
         prop_measure s' \<le> prop_measure s1"
      using valid Cons.prems(4) n1 by (intro Cons.IH [OF st(1) _ _ _ e]) auto
    with st(4) show ?thesis by simp
  next
    case (Some cr')
    with r Cons.prems(5) have "ws' = kept @ ws1 @ rest" "s' = s1"
      by (simp_all add: propagate_watchers.simps)
    with st valid show ?thesis by simp
  qed
qed

lemma propagate_lit_wf:
  assumes "prop_wf s" and "qhead s < length (trail s)"
  shows "prop_wf (snd (propagate_lit confl s))"
    and "prop_measure (snd (propagate_lit confl s)) < prop_measure s"
proof -
  define p where "p = trail s ! qhead s"
  define s1 where "s1 = s\<lparr>qhead := qhead s + 1\<rparr>"
  obtain ws' cf s2 where r: "propagate_watchers p (watches s1 p) [] confl s1 = (ws', cf, s2)"
    by (cases "propagate_watchers p (watches s1 p) [] confl s1") auto
  have wf1: "prop_wf s1" unfolding s1_def using assms by (intro prop_wf_upd(1)) simp_all
  have "p \<in> set (trail s)" unfolding p_def using assms(2) by (rule nth_mem)
  then have pv: "var p < nVars s1" using assms(1) by (simp add: prop_wf_def s1_def)
  have w1: "\<forall>w \<in> set (watches s1 p). cref w < length (ca s1)"
    using wf1 by (simp add: prop_wf_def)
  have m1: "prop_measure s1 < prop_measure s"
    using assms(2) by (simp add: prop_measure_def s1_def undef_vars_def)
  from propagate_watchers_wf [OF wf1 w1 _ pv r]
  have st: "prop_wf s2" "\<forall>w \<in> set ws'. cref w < length (ca s2)"
    "prop_measure s2 \<le> prop_measure s1" by simp_all
  have e: "snd (propagate_lit confl s) = s2\<lparr>watches := (watches s2)(p := ws')\<rparr>"
    using r unfolding s1_def p_def by (simp add: propagate_lit_def Let_def)
  show "prop_wf (snd (propagate_lit confl s))"
    unfolding e using st(1) st(2) by (rule prop_wf_upd(2))
  show "prop_measure (snd (propagate_lit confl s)) < prop_measure s"
    unfolding e using st(3) m1 by (simp add: prop_measure_facts)
qed

lemma propagate_loop_returns:
  "prop_wf s \<Longrightarrow> \<exists>r. propagate_loop confl n s = Some r \<and> prop_wf (snd (snd r))"
proof (induction "prop_measure s" arbitrary: s confl n rule: less_induct)
  case less
  show ?case
  proof (cases "qhead s < length (trail s)")
    case True
    note st = propagate_lit_wf [OF less.prems True, of confl]
    from less.hyps [OF st(2) st(1)] obtain r where
      "propagate_loop (fst (propagate_lit confl s)) (n + 1) (snd (propagate_lit confl s)) = Some r"
      "prop_wf (snd (snd r))" by blast
    moreover have "propagate_loop confl n s =
      propagate_loop (fst (propagate_lit confl s)) (n + 1) (snd (propagate_lit confl s))"
      using True by (subst propagate_loop.simps) simp
    ultimately show ?thesis by simp
  next
    case False
    then have "propagate_loop confl n s = Some (confl, n, s)"
      by (subst propagate_loop.simps) simp
    with less.prems show ?thesis by simp
  qed
qed

lemma fold_clean_wf: "prop_wf s \<Longrightarrow> prop_wf (fold clean xs s)"
proof (induction xs arbitrary: s)
  case Nil
  then show ?case by simp
next
  case (Cons x xs)
  have "prop_wf (clean x s)" using Cons.prems by (auto simp: prop_wf_def clean_def)
  then show ?case using Cons.IH by simp
qed

lemma cleanAll_wf: "prop_wf s \<Longrightarrow> prop_wf (cleanAll s)"
  using fold_clean_wf [of s "dirties s"] by (simp add: cleanAll_def prop_wf_def)

lemma propagate_returns:
  assumes "prop_wf s"
  shows "\<exists>confl s'. propagate s = Some (confl, s') \<and> prop_wf s'"
proof -
  from propagate_loop_returns [OF cleanAll_wf [OF assms], of None 0]
  obtain r where r: "propagate_loop None 0 (cleanAll s) = Some r" "prop_wf (snd (snd r))"
    by blast
  obtain cf k s1 where rr: "r = (cf, k, s1)" by (cases r) auto
  have "prop_wf (s1\<lparr>propagations := propagations s1 + k,
                     simpDB_props := simpDB_props s1 - int k\<rparr>)"
    using r(2) by (simp add: rr prop_wf_def)
  then show ?thesis using r(1) by (simp add: propagate_def rr)
qed

lemma foldM_append:
  "foldM f (xs @ ys) s = (case foldM f xs s of None \<Rightarrow> None | Some s' \<Rightarrow> foldM f ys s')"
  by (induction xs arbitrary: s) (simp_all split: option.splits)

lemma propagated_static:
  assumes "propagated s s'"
  shows "occ s' = occ s" "nVars s' = nVars s" "decisionLevel s' = decisionLevel s"
    "items s' = items s" "seen s' = seen s" "verbosity s' = verbosity s" "ok s' = ok s"
    "trail_lim s' = trail_lim s" "clauses s' = clauses s" "length (ca s') = length (ca s)"
  using assms by (simp_all add: propagated_def same_static_def decisionLevel_def)

lemma propagated_assigned:
  assumes "propagated s s'" "value s p \<noteq> l_Undef"
  shows "value s' p = value s p" "level s' (var p) = level s (var p)"
    "reason s' (var p) = reason s (var p)"
proof -
  from assms(2) have "assigns s (var p) \<noteq> l_Undef" by (simp add: value_Undef_iff)
  with assms(1) show "value s' p = value s p" "level s' (var p) = level s (var p)"
    "reason s' (var p) = reason s (var p)"
    by (simp_all add: propagated_def value_def)
qed

lemma propagated_trail: "propagated s s' \<Longrightarrow> set (trail s) \<subseteq> set (trail s')"
  by (auto simp: propagated_def)

text \<open>
  The effect of pruning item \<open>r\<close>, started in state \<open>s\<close>: \<open>r\<close> is false, assigned at
  the decision level of \<open>s\<close> without reason, and its negation is on the trail.
\<close>

definition pruned :: "solver \<Rightarrow> lit \<Rightarrow> solver \<Rightarrow> bool" where
  "pruned s r s' =
     (value s' r = l_False \<and> level s' (var r) = decisionLevel s \<and> reason s' (var r) = None \<and>
      neg r \<in> set (trail s'))"

lemma pruned_propagated: "pruned s r s1 \<Longrightarrow> propagated s1 s' \<Longrightarrow> pruned s r s'"
  using propagated_assigned [of s1 s' r] propagated_trail [of s1 s']
  by (auto simp: pruned_def)

lemma egp_prune_item_step:
  assumes wf: "prop_wf s" and rv: "var r < nVars s"
  shows "\<exists>s'. egp_prune_item coop r s = Some s' \<and> prop_wf s' \<and> propagated s s' \<and>
           (value s r = l_Undef \<and> occ s (var r) < coop_min_supp coop \<longrightarrow>
              (\<exists>cf. propagate (uncheckedEnqueue s (neg r) None) = Some (cf, s')) \<and>
              length (trail s') \<le> qhead s' \<and> pruned s r s') \<and>
           (occ s (var r) < coop_min_supp coop \<longrightarrow> value s' r \<noteq> l_Undef)"
proof (cases "value s r = l_Undef \<and> occ s (var r) < coop_min_supp coop")
  case True
  define s1 where "s1 = uncheckedEnqueue s (neg r) None"
  have u: "value s (neg r) = l_Undef" using True by (simp add: value_Undef_iff neg_def)
  have p1: "propagated s s1" unfolding s1_def using u by (rule propagated_enqueue)
  have "var (neg r) < nVars s" using rv by (simp add: neg_def)
  with wf have wf1: "prop_wf s1" unfolding s1_def by (rule prop_wf_enqueue)
  have pr1: "pruned s r s1"
    by (cases "sign r") (simp_all add: pruned_def s1_def value_def neg_def lbool_of_def)
  from propagate_returns [OF wf1] obtain cf s' where
    r: "propagate s1 = Some (cf, s')" and wf': "prop_wf s'" by blast
  have p2: "propagated s1 s'" using r by (rule propagate_propagated)
  have q: "length (trail s') \<le> qhead s'" using r by (rule propagate_queue_empty)
  have pr: "pruned s r s'" using pr1 p2 by (rule pruned_propagated)
  have "egp_prune_item coop r s = Some s'"
    using True r by (simp add: egp_prune_item_def s1_def)
  moreover have "propagated s s'" using p1 p2 by (rule propagated_trans)
  moreover have "value s' r \<noteq> l_Undef" using pr by (simp add: pruned_def)
  ultimately show ?thesis using wf' r q pr True by (auto simp: s1_def)
next
  case False
  then have "egp_prune_item coop r s = Some s" by (auto simp: egp_prune_item_def)
  then show ?thesis using False wf by (intro exI [of _ s]) auto
qed

lemma egp_prune_loop:
  assumes "prop_wf s" and "\<forall>r \<in> set rs. var r < nVars s"
  shows "\<exists>s'. foldM (egp_prune_item coop) rs s = Some s' \<and> prop_wf s' \<and> propagated s s'"
  using assms
proof (induction rs arbitrary: s)
  case Nil
  then show ?case by simp
next
  case (Cons r rs)
  from Cons.prems have rv: "var r < nVars s" by simp
  from egp_prune_item_step [OF Cons.prems(1) rv, of coop] obtain s1 where
    s1: "egp_prune_item coop r s = Some s1" "prop_wf s1" "propagated s s1" by blast
  have "\<forall>r \<in> set rs. var r < nVars s1"
    using Cons.prems(2) propagated_static(2) [OF s1(3)] by simp
  from Cons.IH [OF s1(2) this] obtain s' where
    s': "foldM (egp_prune_item coop) rs s1 = Some s'" "prop_wf s'" "propagated s1 s'" by blast
  have "propagated s s'" using s1(3) s'(3) by (rule propagated_trans)
  with s1(1) s' show ?case by simp
qed

text \<open>
  Claim C7. The pruning loop of \<^verbatim>\<open>encodeGuidingPath\<close> runs on a well-formed state whose
  items are over existing variables, after the reifiers are built and \<^verbatim>\<open>occ\<close> is
  tallied. The loop returns, and for every item \<open>r\<close> of \<^verbatim>\<open>items\<close>, reached in state
  \<open>sr\<close>: if \<open>r\<close> is still undefined and \<^verbatim>\<open>occ[var(r)] < min_supp\<close>, its negation is
  enqueued and \<^verbatim>\<open>propagate\<close> is run on the result at once, returning with an empty
  queue; at the end of the loop \<open>r\<close> is false, assigned at the decision level of the
  encoding (0) without reason. In any case no item with \<^verbatim>\<open>occ\<close> below \<^verbatim>\<open>min_supp\<close> is
  undefined when the loop ends.
\<close>

theorem egp_prune_low_support:
  assumes "prop_wf s" and "\<forall>x \<in> set (items s). var x < nVars s"
    and "items s = xs @ r # ys"
  shows "\<exists>sr sr' s'.
           foldM (egp_prune_item coop) xs s = Some sr \<and>
           egp_prune_item coop r sr = Some sr' \<and>
           egp_prune coop s = Some s' \<and>
           (value sr r = l_Undef \<and> occ s (var r) < coop_min_supp coop \<longrightarrow>
              (\<exists>cf. propagate (uncheckedEnqueue sr (neg r) None) = Some (cf, sr')) \<and>
              length (trail sr') \<le> qhead sr' \<and>
              value s' r = l_False \<and> level s' (var r) = decisionLevel s \<and>
              reason s' (var r) = None \<and> neg r \<in> set (trail s')) \<and>
           (occ s (var r) < coop_min_supp coop \<longrightarrow> value s' r \<noteq> l_Undef)"
proof -
  have xsv: "\<forall>x \<in> set xs. var x < nVars s" and rv: "var r < nVars s"
    and ysv: "\<forall>x \<in> set ys. var x < nVars s"
    using assms(2,3) by simp_all
  from egp_prune_loop [OF assms(1) xsv, of coop] obtain sr where
    sr: "foldM (egp_prune_item coop) xs s = Some sr" "prop_wf sr" "propagated s sr" by blast
  note st = propagated_static [OF sr(3)]
  have rv': "var r < nVars sr" using rv st(2) by simp
  from egp_prune_item_step [OF sr(2) rv', of coop] obtain sr' where
    sr': "egp_prune_item coop r sr = Some sr'" "prop_wf sr'" "propagated sr sr'"
    "value sr r = l_Undef \<and> occ sr (var r) < coop_min_supp coop \<longrightarrow>
              (\<exists>cf. propagate (uncheckedEnqueue sr (neg r) None) = Some (cf, sr')) \<and>
              length (trail sr') \<le> qhead sr' \<and> pruned sr r sr'"
    "occ sr (var r) < coop_min_supp coop \<longrightarrow> value sr' r \<noteq> l_Undef" by blast
  have ysv': "\<forall>x \<in> set ys. var x < nVars sr'"
    using ysv st(2) propagated_static(2) [OF sr'(3)] by simp
  from egp_prune_loop [OF sr'(2) ysv', of coop] obtain s' where
    s': "foldM (egp_prune_item coop) ys sr' = Some s'" "propagated sr' s'" by blast
  have e: "egp_prune coop s = Some s'"
    using sr(1) sr'(1) s'(1) by (simp add: egp_prune_def assms(3) foldM_append)
  have a: "value sr r = l_Undef \<and> occ s (var r) < coop_min_supp coop \<longrightarrow>
              (\<exists>cf. propagate (uncheckedEnqueue sr (neg r) None) = Some (cf, sr')) \<and>
              length (trail sr') \<le> qhead sr' \<and>
              value s' r = l_False \<and> level s' (var r) = decisionLevel s \<and>
              reason s' (var r) = None \<and> neg r \<in> set (trail s')"
  proof (intro impI)
    assume h: "value sr r = l_Undef \<and> occ s (var r) < coop_min_supp coop"
    with sr'(4) st(1) have
      p: "\<exists>cf. propagate (uncheckedEnqueue sr (neg r) None) = Some (cf, sr')"
      "length (trail sr') \<le> qhead sr'" "pruned sr r sr'" by simp_all
    from pruned_propagated [OF p(3) s'(2)] have "pruned sr r s'" .
    then show "(\<exists>cf. propagate (uncheckedEnqueue sr (neg r) None) = Some (cf, sr')) \<and>
              length (trail sr') \<le> qhead sr' \<and>
              value s' r = l_False \<and> level s' (var r) = decisionLevel s \<and>
              reason s' (var r) = None \<and> neg r \<in> set (trail s')"
      using p(1,2) st(3) by (simp add: pruned_def)
  qed
  have b: "occ s (var r) < coop_min_supp coop \<longrightarrow> value s' r \<noteq> l_Undef"
  proof
    assume "occ s (var r) < coop_min_supp coop"
    with sr'(5) st(1) have d: "value sr' r \<noteq> l_Undef" by simp
    from propagated_assigned(1) [OF s'(2) d] d show "value s' r \<noteq> l_Undef" by simp
  qed
  show ?thesis using sr(1) sr'(1) e a b by blast
qed


text \<open>
  After the encoding of the path of item 0: item 1 is undefined with \<^verbatim>\<open>occ = 1\<close>
  below the minimum support 2, and the clause \<open>\<not>a \<or> x1\<close> of the reifier \<open>a\<close>
  (variable 3, weight 1) is attached.
\<close>

definition prune_example :: solver where
  "prune_example = init_solver\<lparr>nVars := 4, nbItems := 2, nbTrans := 1,
     decision := (\<lambda>v. v < 2), allItems := [mkLit 0 False, mkLit 1 False],
     items := [mkLit 0 False, mkLit 1 False],
     ca := [\<lparr>lits = [mkLit 3 True, mkLit 1 False], learnt = False, mark = 0, c_activity = 0\<rparr>],
     clauses := [0],
     watches := (\<lambda>_. [])(mkLit 3 False := [Watcher 0 (mkLit 1 False)],
                          mkLit 1 True := [Watcher 0 (mkLit 3 True)]),
     assigns := (\<lambda>_. l_Undef)(0 := l_True),
     trail := [mkLit 0 False], qhead := 0,
     hu_wei := (\<lambda>_. 0)(3 := 1), totalWeight := 6, min_supp := 2,
     occ := (\<lambda>_. 0)(0 := 5, 1 := 1)\<rparr>"

definition prune_coop :: cooperation where
  "prune_coop = \<lparr>nbThreads = 1, coop_min_supp = 2, wocc = (\<lambda>_. 0)(0 := 5, 1 := 1),
     appearTrans = (\<lambda>_. [])(0 := [0], 1 := [0]),
     list_transactions = (\<lambda>_. [])(0 := [mkLit 0 False, mkLit 1 False]),
     wItemTrans = (\<lambda>_. [])(0 := [5, 1]), enum_clos = 0, div_begining = 0\<rparr>"

lemma prune_example_wf: "prop_wf prune_example"
  by (auto simp: prop_wf_def prune_example_def init_solver_def split: if_splits)

theorem egp_prune_low_support_witness:
  "prop_wf prune_example \<and>
   items prune_example = [mkLit 0 False] @ mkLit 1 False # [] \<and>
   value prune_example (mkLit 1 False) = l_Undef \<and>
   occ prune_example (var (mkLit 1 False)) < coop_min_supp prune_coop \<and>
   (\<exists>s'. egp_prune prune_coop prune_example = Some s' \<and>
         value s' (mkLit 1 False) = l_False \<and> level s' 1 = 0 \<and> reason s' 1 = None \<and>
         mkLit 1 True \<in> set (trail s'))"
proof -
  have h2: "\<forall>x \<in> set (items prune_example). var x < nVars prune_example"
    and h3: "items prune_example = [mkLit 0 False] @ mkLit 1 False # []"
    and u: "value prune_example (mkLit 1 False) = l_Undef"
    and o: "occ prune_example (var (mkLit 1 False)) < coop_min_supp prune_coop"
    and d: "decisionLevel prune_example = 0"
    by (simp_all add: prune_example_def prune_coop_def init_solver_def value_def
        decisionLevel_def)
  have e: "foldM (egp_prune_item prune_coop) [mkLit 0 False] prune_example = Some prune_example"
    by (simp add: egp_prune_item_def value_def prune_example_def init_solver_def)
  from egp_prune_low_support [OF prune_example_wf h2 h3, of prune_coop] e u o d
  have "\<exists>s'. egp_prune prune_coop prune_example = Some s' \<and>
         value s' (mkLit 1 False) = l_False \<and> level s' 1 = 0 \<and> reason s' 1 = None \<and>
         mkLit 1 True \<in> set (trail s')"
    by auto
  with prune_example_wf h3 u o show ?thesis by simp
qed

section \<open>Support constraints\<close>

text \<open>
  \<^verbatim>\<open>addClause\<close> and the loops over \<^verbatim>\<open>seen\<close> leave the verbosity alone, and
  \<^verbatim>\<open>addClause\<close> leaves \<^verbatim>\<open>seen\<close> alone.
\<close>

lemma attachClause_static:
  "seen (attachClause s cr) = seen s" "verbosity (attachClause s cr) = verbosity s"
  by (simp_all add: attachClause_def Let_def)

lemma addClause_static:
  assumes "addClause s ps = Some s'"
  shows "seen s' = seen s" and "verbosity s' = verbosity s"
proof -
  from assms obtain b where a: "addClause' s ps = Some (b, s')"
    by (auto simp: addClause_def)
  have "seen s' = seen s \<and> verbosity s' = verbosity s"
  proof (cases "ok s")
    case False
    with a show ?thesis by (simp add: addClause'_def)
  next
    case ok: True
    show ?thesis
    proof (cases "addClause_loop s None (sort_key toInt ps) []")
      case None
      with a ok show ?thesis by (simp add: addClause'_def)
    next
      case (Some ps')
      show ?thesis
      proof (cases "length ps' = 0 \<or> 1 < length ps'")
        case True
        with a ok Some show ?thesis
          by (auto simp: addClause'_def Let_def attachClause_static split: if_splits)
      next
        case False
        then have l: "length ps' = 1" by (cases ps') auto
        with a ok Some obtain confl s1 where
          p: "propagate (uncheckedEnqueue s (ps' ! 0) None) = Some (confl, s1)"
          and s': "s' = s1\<lparr>ok := (confl = None)\<rparr>"
          by (auto simp: addClause'_def split: option.splits)
        from propagate_propagated [OF p] have "seen s1 = seen s" "verbosity s1 = verbosity s"
          by (simp_all add: propagated_def same_static_def uncheckedEnqueue_def Let_def)
        then show ?thesis by (simp add: s')
      qed
    qed
  qed
  then show "seen s' = seen s" and "verbosity s' = verbosity s" by simp_all
qed

lemma mark_seen_fields:
  "seen (mark_seen b ls s) = (\<lambda>v. if v \<in> var ` set ls then b else seen s v)"
  "verbosity (mark_seen b ls s) = verbosity s"
  "value (mark_seen b ls s) = value s"
proof -
  have "seen (mark_seen b ls s) = (\<lambda>v. if v \<in> var ` set ls then b else seen s v) \<and>
        verbosity (mark_seen b ls s) = verbosity s \<and> assigns (mark_seen b ls s) = assigns s"
    unfolding mark_seen_def
  proof (induction ls arbitrary: s)
    case Nil
    show ?case by simp
  next
    case (Cons l ls)
    define s' where "s' = s\<lparr>seen := (seen s)(var l := b)\<rparr>"
    have st: "fold (\<lambda>l s. s\<lparr>seen := (seen s)(var l := b)\<rparr>) (l # ls) s =
              fold (\<lambda>l s. s\<lparr>seen := (seen s)(var l := b)\<rparr>) ls s'"
      by (simp only: fold_simps s'_def)
    have s': "seen s' = (seen s)(var l := b)" "verbosity s' = verbosity s" "assigns s' = assigns s"
      by (simp_all add: s'_def)
    define F where "F = fold (\<lambda>l s. s\<lparr>seen := (seen s)(var l := b)\<rparr>) ls s'"
    from Cons.IH [of s'] have a: "seen F = (\<lambda>v. if v \<in> var ` set ls then b else seen s' v)"
      and r: "verbosity F = verbosity s'" "assigns F = assigns s'"
      unfolding F_def by blast+
    have "seen F = (\<lambda>v. if v \<in> var ` set (l # ls) then b else seen s v)"
      unfolding a s' by (rule ext) auto
    with r s' show ?case unfolding st F_def [symmetric] by simp
  qed
  then show "seen (mark_seen b ls s) = (\<lambda>v. if v \<in> var ` set ls then b else seen s v)"
    "verbosity (mark_seen b ls s) = verbosity s" "value (mark_seen b ls s) = value s"
    by (simp_all add: value_def [abs_def])
qed

text \<open>
  The clauses of \<^verbatim>\<open>add_support_constraints\<close> in words: when \<^verbatim>\<open>verbosity == 1\<close>, the
  clause of the items of the transaction with \<open>\<not>q\<close>; when \<^verbatim>\<open>verbosity == 1\<close>, the clause
  of \<open>q\<close> with the items of the list that are outside the transaction and not false; and
  in every case, for each item \<open>r\<close> of the list that is outside the transaction and not
  false when its turn comes, the binary clause \<open>\<not>q \<or> \<not>r\<close>. Membership in the
  transaction stands for the marks in \<^verbatim>\<open>seen\<close>.
\<close>

definition support_constraints_spec :: "solver \<Rightarrow> nat \<Rightarrow> lit list \<Rightarrow> lit list \<Rightarrow> solver option" where
  "support_constraints_spec s num lastTrans its =
     do {
       s1 \<leftarrow> (if verbosity s = 1 then addClause s (lastTrans @ [mkLit num True]) else Some s);
       let s2 = mark_seen True lastTrans s1;
       s3 \<leftarrow> (if verbosity s = 1
              then addClause s2
                     (filter (\<lambda>x. var x \<notin> var ` set lastTrans \<and> value s2 x \<noteq> l_False) its
                      @ [mkLit num False])
              else Some s2);
       s4 \<leftarrow> foldM (\<lambda>x s. if var x \<notin> var ` set lastTrans \<and> value s x \<noteq> l_False
                          then addClause s [mkLit num True, neg x] else Some s) its s3;
       Some (mark_seen False lastTrans s4)
     }"

lemma foldM_support_binary:
  "\<forall>x \<in> set xs. seen s (var x) = (var x \<in> V) \<Longrightarrow>
   foldM (support_binary num) xs s =
   foldM (\<lambda>x s. if var x \<notin> V \<and> value s x \<noteq> l_False
                then addClause s [mkLit num True, neg x] else Some s) xs s"
proof (induction xs arbitrary: s)
  case Nil
  show ?case by simp
next
  case (Cons x xs)
  have hd: "seen s (var x) = (var x \<in> V)" using Cons.prems by simp
  show ?case
  proof (cases "var x \<notin> V \<and> value s x \<noteq> l_False")
    case False
    from Cons.prems have "\<forall>x \<in> set xs. seen s (var x) = (var x \<in> V)" by simp
    from Cons.IH [OF this] False hd show ?thesis
      by (auto simp: support_binary_def)
  next
    case True
    show ?thesis
    proof (cases "addClause s [mkLit num True, neg x]")
      case None
      with True hd show ?thesis by (simp add: support_binary_def)
    next
      case (Some s1)
      from addClause_static(1) [OF Some] Cons.prems
      have "\<forall>x \<in> set xs. seen s1 (var x) = (var x \<in> V)" by simp
      from Cons.IH [OF this] True hd Some show ?thesis by (simp add: support_binary_def)
    qed
  qed
qed


lemma mark_seen_frame:
  "ca (mark_seen b ls s) = ca s" "ok (mark_seen b ls s) = ok s"
  "assigns (mark_seen b ls s) = assigns s"
proof -
  have "ca (mark_seen b ls s) = ca s \<and> ok (mark_seen b ls s) = ok s \<and>
        assigns (mark_seen b ls s) = assigns s"
    unfolding mark_seen_def by (induction ls arbitrary: s) simp_all
  then show "ca (mark_seen b ls s) = ca s" "ok (mark_seen b ls s) = ok s"
    "assigns (mark_seen b ls s) = assigns s" by simp_all
qed

lemma addClause_binary:
  assumes "ok s" "assigns s a = l_Undef" "assigns s (var x) = l_Undef" "var x \<noteq> a"
  shows "\<exists>s'. addClause s [mkLit a True, neg x] = Some s' \<and> ok s' \<and>
           assigns s' = assigns s \<and> seen s' = seen s \<and>
           map lits (ca s') = map lits (ca s) @ [sort_key toInt [mkLit a True, neg x]]"
proof -
  obtain v b where x: "x = mkLit v b" by (cases x)
  from assms x have u: "value s (mkLit a True) = l_Undef" "value s (mkLit v (\<not> b)) = l_Undef"
    and ne: "v \<noteq> a"
    by (simp_all add: value_Undef_iff)
  show ?thesis
  proof (cases "toInt (mkLit a True) \<le> toInt (mkLit v (\<not> b))")
    case True
    then have so: "sort_key toInt [mkLit a True, neg x] = [mkLit a True, mkLit v (\<not> b)]"
      by (simp add: x)
    have lo: "addClause_loop s None [mkLit a True, mkLit v (\<not> b)] [] =
              Some [mkLit a True, mkLit v (\<not> b)]"
      using u ne by simp
    show ?thesis
      unfolding addClause_def addClause'_def so lo using assms(1)
      by (simp add: attachClause_def Let_def)
  next
    case False
    then have so: "sort_key toInt [mkLit a True, neg x] = [mkLit v (\<not> b), mkLit a True]"
      by (simp add: x)
    have lo: "addClause_loop s None [mkLit v (\<not> b), mkLit a True] [] =
              Some [mkLit v (\<not> b), mkLit a True]"
      using u ne by simp
    show ?thesis
      unfolding addClause_def addClause'_def so lo using assms(1)
      by (simp add: attachClause_def Let_def)
  qed
qed

lemma foldM_support_binary_clauses:
  assumes "ok s" "assigns s num = l_Undef"
    and "\<forall>x \<in> set xs. var x \<noteq> num \<and> assigns s (var x) = l_Undef"
    and "\<forall>x \<in> set xs. seen s (var x) = (var x \<in> V)"
  shows "\<exists>s'. foldM (support_binary num) xs s = Some s' \<and>
           map lits (ca s') = map lits (ca s) @
             map (\<lambda>x. sort_key toInt [mkLit num True, neg x]) (filter (\<lambda>x. var x \<notin> V) xs)"
  using assms
proof (induction xs arbitrary: s)
  case Nil
  show ?case by simp
next
  case (Cons x xs)
  from Cons.prems have hd: "seen s (var x) = (var x \<in> V)" "var x \<noteq> num"
    "assigns s (var x) = l_Undef" by simp_all
  then have nf: "value s x \<noteq> l_False" by (simp add: value_def)
  show ?case
  proof (cases "var x \<in> V")
    case True
    with hd have st: "support_binary num x s = Some s" by (simp add: support_binary_def)
    from Cons.IH [of s] Cons.prems obtain s' where
      "foldM (support_binary num) xs s = Some s'"
      "map lits (ca s') = map lits (ca s) @
         map (\<lambda>x. sort_key toInt [mkLit num True, neg x]) (filter (\<lambda>x. var x \<notin> V) xs)"
      by auto
    with st True show ?thesis by simp
  next
    case False
    from addClause_binary [OF Cons.prems(1,2) hd(3,2)] obtain s1 where
      a: "addClause s [mkLit num True, neg x] = Some s1" and s1: "ok s1"
      "assigns s1 = assigns s" "seen s1 = seen s"
      and c1: "map lits (ca s1) = map lits (ca s) @ [sort_key toInt [mkLit num True, neg x]]"
      by blast
    from False hd nf a have st: "support_binary num x s = Some s1"
      by (simp add: support_binary_def)
    from Cons.IH [of s1] Cons.prems s1 obtain s' where
      "foldM (support_binary num) xs s1 = Some s'"
      "map lits (ca s') = map lits (ca s1) @
         map (\<lambda>x. sort_key toInt [mkLit num True, neg x]) (filter (\<lambda>x. var x \<notin> V) xs)"
      by auto
    with st False c1 show ?thesis by simp
  qed
qed

text \<open>
  Three items \<open>x0\<close>, \<open>x1\<close>, \<open>x2\<close> and one transaction variable \<open>q = 3\<close>, nothing
  assigned, no clause.
\<close>

definition support_example :: solver where
  "support_example = init_solver\<lparr>nVars := 4, nbItems := 3, nbTrans := 1,
     decision := (\<lambda>v. v < 3),
     allItems := [mkLit 0 False, mkLit 1 False, mkLit 2 False],
     items := [mkLit 0 False, mkLit 1 False, mkLit 2 False]\<rparr>"

text \<open>
  Claim C5, as the code has it. With \<^verbatim>\<open>seen\<close> clear on the items outside the
  transaction, \<^verbatim>\<open>add_support_constraints\<close> hands to \<^verbatim>\<open>addClause\<close> the clauses of
  \<open>support_constraints_spec\<close>: the two long clauses only when \<^verbatim>\<open>verbosity == 1\<close>, and a
  binary clause \<open>\<not>q \<or> \<not>r\<close> for the items \<open>r\<close> outside the transaction. When the
  verbosity is not 1, the solver is consistent, and \<open>q\<close> and the items are unassigned,
  the call returns and the clauses added are exactly \<open>\<not>q \<or> \<not>r\<close>, sorted, for each item
  \<open>r\<close> of the list outside the transaction, in the order of the list.
\<close>

theorem add_support_constraints_clauses:
  assumes "\<forall>x \<in> set its. var x \<notin> var ` set lastTrans \<longrightarrow> \<not> seen s (var x)"
  shows "add_support_constraints s num lastTrans its =
           support_constraints_spec s num lastTrans its \<and>
         (verbosity s \<noteq> 1 \<and> ok s \<and> assigns s num = l_Undef \<and>
          (\<forall>x \<in> set its. var x \<noteq> num \<and> assigns s (var x) = l_Undef) \<longrightarrow>
          (\<exists>s'. add_support_constraints s num lastTrans its = Some s' \<and>
                map lits (ca s') = map lits (ca s) @
                  map (\<lambda>x. sort_key toInt [mkLit num True, neg x])
                    (filter (\<lambda>x. var x \<notin> var ` set lastTrans) its)))"
proof (rule conjI)
  define V where "V = var ` set lastTrans"
  have m: "\<And>t. seen t = seen s \<Longrightarrow>
             \<forall>x \<in> set its. seen (mark_seen True lastTrans t) (var x) = (var x \<in> V)"
    using assms by (auto simp: mark_seen_fields V_def)
  show "add_support_constraints s num lastTrans its =
           support_constraints_spec s num lastTrans its"
  proof (cases "verbosity s = 1")
    case False
    from m [of s] have f: "filter (\<lambda>x. \<not> seen (mark_seen True lastTrans s) (var x) \<and>
            value (mark_seen True lastTrans s) x \<noteq> l_False) its =
          filter (\<lambda>x. var x \<notin> V \<and> value (mark_seen True lastTrans s) x \<noteq> l_False) its"
      by (auto intro: filter_cong)
    from False foldM_support_binary [OF m [of s, OF refl], of num] show ?thesis
      by (simp add: add_support_constraints_def support_constraints_spec_def
          mark_seen_fields(2) V_def)
  next
    case v: True
    show ?thesis
    proof (cases "addClause s (lastTrans @ [mkLit num True])")
      case None
      with v show ?thesis
        by (simp add: add_support_constraints_def support_constraints_spec_def)
    next
      case (Some s1)
      define s2 where "s2 = mark_seen True lastTrans s1"
      from addClause_static [OF Some] have s1: "seen s1 = seen s" "verbosity s1 = verbosity s" .
      from m [OF s1(1)] have m2: "\<forall>x \<in> set its. seen s2 (var x) = (var x \<in> V)"
        by (simp add: s2_def)
      then have f: "filter (\<lambda>x. \<not> seen s2 (var x) \<and> value s2 x \<noteq> l_False) its =
          filter (\<lambda>x. var x \<notin> V \<and> value s2 x \<noteq> l_False) its"
        by (auto intro: filter_cong)
      have v2: "verbosity s2 = 1" using v s1 by (simp add: s2_def mark_seen_fields)
      show ?thesis
      proof (cases "addClause s2 (filter (\<lambda>x. var x \<notin> V \<and> value s2 x \<noteq> l_False) its
                      @ [mkLit num False])")
        case None
        with v v2 Some f show ?thesis
          by (simp add: add_support_constraints_def support_constraints_spec_def
              s2_def [symmetric] V_def [symmetric])
      next
        case s3: (Some s3)
        from addClause_static(1) [OF s3] m2
        have "\<forall>x \<in> set its. seen s3 (var x) = (var x \<in> V)" by simp
        from foldM_support_binary [OF this, of num] v v2 Some f s3 show ?thesis
          by (simp add: add_support_constraints_def support_constraints_spec_def
              s2_def [symmetric] V_def [symmetric])
      qed
    qed
  qed
  show "verbosity s \<noteq> 1 \<and> ok s \<and> assigns s num = l_Undef \<and>
         (\<forall>x \<in> set its. var x \<noteq> num \<and> assigns s (var x) = l_Undef) \<longrightarrow>
         (\<exists>s'. add_support_constraints s num lastTrans its = Some s' \<and>
               map lits (ca s') = map lits (ca s) @
                 map (\<lambda>x. sort_key toInt [mkLit num True, neg x])
                   (filter (\<lambda>x. var x \<notin> var ` set lastTrans) its))"
  proof
    assume h: "verbosity s \<noteq> 1 \<and> ok s \<and> assigns s num = l_Undef \<and>
         (\<forall>x \<in> set its. var x \<noteq> num \<and> assigns s (var x) = l_Undef)"
    define s2 where "s2 = mark_seen True lastTrans s"
    from h have "ok s2" "assigns s2 num = l_Undef"
      "\<forall>x \<in> set its. var x \<noteq> num \<and> assigns s2 (var x) = l_Undef"
      by (simp_all add: s2_def mark_seen_frame)
    from foldM_support_binary_clauses [OF this, of V] m [of s, OF refl]
    obtain s4 where "foldM (support_binary num) its s2 = Some s4"
      "map lits (ca s4) = map lits (ca s2) @
         map (\<lambda>x. sort_key toInt [mkLit num True, neg x]) (filter (\<lambda>x. var x \<notin> V) its)"
      by (auto simp: s2_def)
    moreover have "ca s2 = ca s" by (simp add: s2_def mark_seen_frame)
    ultimately show "\<exists>s'. add_support_constraints s num lastTrans its = Some s' \<and>
               map lits (ca s') = map lits (ca s) @
                 map (\<lambda>x. sort_key toInt [mkLit num True, neg x])
                   (filter (\<lambda>x. var x \<notin> var ` set lastTrans) its)"
      using h
      by (simp add: add_support_constraints_def mark_seen_fields(2) mark_seen_frame
          s2_def [symmetric] V_def [symmetric])
  qed
qed


text \<open>
  Claim C5 as it is stated does not hold. For the transaction \<open>{x0, x1}\<close> with variable
  \<open>q\<close> and the items \<open>x0, x1, x2\<close>, all unassigned: with verbosity 0 the only clause
  added is \<open>\<not>x2 \<or> \<not>q\<close>; with verbosity 1 the clauses are \<open>x0 \<or> x1 \<or> \<not>q\<close>,
  \<open>x2 \<or> q\<close> and \<open>\<not>x2 \<or> \<not>q\<close>. Neither run adds \<open>\<not>q \<or> x0\<close>, \<open>\<not>q \<or> x1\<close> or
  \<open>q \<or> \<not>x0 \<or> \<not>x1\<close>, and the two runs differ.
\<close>

theorem add_support_constraints_counterexample:
  "\<exists>s0 s1.
     add_support_constraints support_example 3 [mkLit 0 False, mkLit 1 False]
       (items support_example) = Some s0 \<and>
     add_support_constraints (support_example\<lparr>verbosity := 1\<rparr>) 3 [mkLit 0 False, mkLit 1 False]
       (items support_example) = Some s1 \<and>
     map lits (ca s0) = [[mkLit 2 True, mkLit 3 True]] \<and>
     map lits (ca s1) = [[mkLit 0 False, mkLit 1 False, mkLit 3 True],
                         [mkLit 2 False, mkLit 3 False],
                         [mkLit 2 True, mkLit 3 True]] \<and>
     [mkLit 0 False, mkLit 3 True] \<notin> set (map lits (ca s0)) \<and>
     [mkLit 1 False, mkLit 3 True] \<notin> set (map lits (ca s0)) \<and>
     [mkLit 0 True, mkLit 1 True, mkLit 3 False] \<notin> set (map lits (ca s0)) \<and>
     [mkLit 0 False, mkLit 3 True] \<notin> set (map lits (ca s1)) \<and>
     [mkLit 1 False, mkLit 3 True] \<notin> set (map lits (ca s1)) \<and>
     [mkLit 0 True, mkLit 1 True, mkLit 3 False] \<notin> set (map lits (ca s1)) \<and>
     map lits (ca s0) \<noteq> map lits (ca s1)"
  by (simp add: add_support_constraints_def support_binary_def mark_seen_def addClause_def
      addClause'_def attachClause_def value_def toInt_def Let_def support_example_def
      init_solver_def)

text \<open>The theorem at the example, with verbosity 0.\<close>

theorem add_support_constraints_clauses_witness:
  "seen support_example 2 = False \<and> verbosity support_example \<noteq> 1 \<and> ok support_example \<and>
   assigns support_example 3 = l_Undef \<and>
   (\<exists>s'. add_support_constraints support_example 3 [mkLit 0 False, mkLit 1 False]
            (items support_example) = Some s' \<and>
         support_constraints_spec support_example 3 [mkLit 0 False, mkLit 1 False]
            (items support_example) = Some s' \<and>
         map lits (ca s') = [[mkLit 2 True, mkLit 3 True]])"
proof -
  have h: "\<forall>x \<in> set (items support_example).
             var x \<notin> var ` set [mkLit 0 False, mkLit 1 False] \<longrightarrow>
             \<not> seen support_example (var x)"
    by (simp add: support_example_def init_solver_def)
  have e: "seen support_example 2 = False" "verbosity support_example \<noteq> 1"
    "ok support_example" "assigns support_example 3 = l_Undef"
    "\<forall>x \<in> set (items support_example). var x \<noteq> 3 \<and> assigns support_example (var x) = l_Undef"
    "ca support_example = []"
    "filter (\<lambda>x. var x \<notin> var ` set [mkLit 0 False, mkLit 1 False]) (items support_example) =
       [mkLit 2 False]"
    "sort_key toInt [mkLit 3 True, neg (mkLit 2 False)] = [mkLit 2 True, mkLit 3 True]"
    by (simp_all add: support_example_def init_solver_def toInt_def)
  from add_support_constraints_clauses [OF h, of 3] e(2-5)
  have a: "add_support_constraints support_example 3 [mkLit 0 False, mkLit 1 False]
             (items support_example) =
           support_constraints_spec support_example 3 [mkLit 0 False, mkLit 1 False]
             (items support_example)"
    and "\<exists>s'. add_support_constraints support_example 3 [mkLit 0 False, mkLit 1 False]
             (items support_example) = Some s' \<and>
           map lits (ca s') = map lits (ca support_example) @
             map (\<lambda>x. sort_key toInt [mkLit 3 True, neg x])
               (filter (\<lambda>x. var x \<notin> var ` set [mkLit 0 False, mkLit 1 False])
                 (items support_example))"
    by blast+
  then obtain s' where
    s': "add_support_constraints support_example 3 [mkLit 0 False, mkLit 1 False]
           (items support_example) = Some s'"
      "map lits (ca s') = [[mkLit 2 True, mkLit 3 True]]"
    unfolding e(6,7) by (auto simp: toInt_def)
  with a have "support_constraints_spec support_example 3 [mkLit 0 False, mkLit 1 False]
           (items support_example) = Some s'" by simp
  with s' e(1-4) show ?thesis by simp
qed

section \<open>The weight invariant across guiding paths\<close>





section \<open>The search loop on a conflict\<close>

text \<open>
  What holds at the two labels of \<^verbatim>\<open>search\<close>. At \<^verbatim>\<open>Prop\<close>: \<^verbatim>\<open>ok\<close> is set or the
  decision level is 0, and \<^verbatim>\<open>diviser_state\<close> is 0 only at level 0. At \<^verbatim>\<open>div_section\<close>:
  \<^verbatim>\<open>ok\<close> is set unless \<^verbatim>\<open>diviser_state\<close> is 0, which it is only at level 0. \<^verbatim>\<open>ok\<close>
  is cleared by \<^verbatim>\<open>addClause_\<close> alone here, which the encoder calls, and the encoder
  runs when \<^verbatim>\<open>diviser_state\<close> is 0.
\<close>

definition search_inv :: "search_ctl \<Rightarrow> solver \<Rightarrow> bool" where
  "search_inv ctl s =
     (case ctl of
        Prop \<Rightarrow> (ok s \<or> decisionLevel s = 0) \<and> (diviser_state s = 0 \<longrightarrow> decisionLevel s = 0)
      | Div_section \<Rightarrow>
          (diviser_state s \<noteq> 0 \<longrightarrow> ok s) \<and> (diviser_state s = 0 \<longrightarrow> decisionLevel s = 0)
      | Return b \<Rightarrow> True)"

text \<open>
  \<open>search_run\<close> runs the loop body \<open>n\<close> times from a label; the state it reaches is a
  state of the search.
\<close>

fun search_run ::
  "(solver \<Rightarrow> solver) \<Rightarrow> cooperation \<Rightarrow> nat \<Rightarrow> search_ctl \<Rightarrow> solver \<Rightarrow>
   (search_ctl \<times> solver) option" where
  "search_run garbage coop 0 ctl s = Some (ctl, s)"
| "search_run garbage coop (Suc n) ctl s =
     (case search_step garbage coop ctl s of
        None \<Rightarrow> None
      | Some r \<Rightarrow> search_run garbage coop n (fst r) (snd r))"

text \<open>
  Two item variables with the clauses \<open>\<not>x0 \<or> x1\<close> and \<open>\<not>x0 \<or> \<not>x1\<close>, attached, at
  level 0 with nothing assigned: the search decides \<open>x0\<close>, propagation sets \<open>x1\<close>, and
  the second clause is the conflict.
\<close>

definition branch_conflict_example :: solver where
  "branch_conflict_example = init_solver\<lparr>nVars := 2, nbItems := 2,
     decision := (\<lambda>v. v < 2), order_heap := [0, 1],
     ca := [\<lparr>lits = [mkLit 0 True, mkLit 1 False], learnt = False, mark = 0, c_activity = 0\<rparr>,
            \<lparr>lits = [mkLit 0 True, mkLit 1 True], learnt = False, mark = 0, c_activity = 0\<rparr>],
     clauses := [0, 1],
     watches := (\<lambda>_. [])(mkLit 0 False := [Watcher 0 (mkLit 1 False), Watcher 1 (mkLit 1 True)],
                          mkLit 1 True := [Watcher 0 (mkLit 0 True)],
                          mkLit 1 False := [Watcher 1 (mkLit 0 True)])\<rparr>"

definition coop_example :: cooperation where
  "coop_example = \<lparr>nbThreads = 1, coop_min_supp = 0, wocc = (\<lambda>_. 0),
     appearTrans = (\<lambda>_. []), list_transactions = (\<lambda>_. []), wItemTrans = (\<lambda>_. []),
     enum_clos = 0, div_begining = 0\<rparr>"

text \<open>
  The encoder opens no decision level and closes none, whatever it adds: every function
  it calls leaves \<^verbatim>\<open>trail_lim\<close> as it is. The same is asked of the last statement of
  \<^verbatim>\<open>encodeGuidingPath\<close>, the parameter \<open>garbage\<close>.
\<close>

lemma foldM_pres:
  assumes "\<And>x s s'. P s \<Longrightarrow> f x s = Some s' \<Longrightarrow> P s'"
  shows "P s \<Longrightarrow> foldM f xs s = Some s' \<Longrightarrow> P s'"
proof (induction xs arbitrary: s)
  case Nil
  then show ?case by simp
next
  case (Cons x xs)
  from Cons.prems(2) obtain s1 where s1: "f x s = Some s1" "foldM f xs s1 = Some s'"
    by (auto split: option.splits)
  from assms [OF Cons.prems(1) s1(1)] have "P s1" .
  from Cons.IH [OF this s1(2)] show ?case .
qed

lemma fold_pres:
  assumes "\<And>x s. P s \<Longrightarrow> P (f x s)"
  shows "P s \<Longrightarrow> P (fold f xs s)"
  by (induction xs arbitrary: s) (simp_all add: assms)

lemma addClause_lim:
  assumes "addClause s ps = Some s'"
  shows "trail_lim s' = trail_lim s"
proof -
  from assms obtain b where a: "addClause' s ps = Some (b, s')"
    by (auto simp: addClause_def)
  show ?thesis
  proof (cases "ok s")
    case False
    with a show ?thesis by (simp add: addClause'_def)
  next
    case ok: True
    show ?thesis
    proof (cases "addClause_loop s None (sort_key toInt ps) []")
      case None
      with a ok show ?thesis by (simp add: addClause'_def)
    next
      case (Some ps')
      show ?thesis
      proof (cases "length ps' = 0 \<or> 1 < length ps'")
        case True
        with a ok Some show ?thesis
          by (auto simp: addClause'_def Let_def attachClause_def split: if_splits)
      next
        case False
        then have l: "length ps' = 1" by (cases ps') auto
        with a ok Some obtain confl s1 where
          p: "propagate (uncheckedEnqueue s (ps' ! 0) None) = Some (confl, s1)"
          and s': "s' = s1\<lparr>ok := (confl = None)\<rparr>"
          by (auto simp: addClause'_def split: option.splits)
        from propagate_propagated [OF p] have "trail_lim s1 = trail_lim s"
          by (simp add: propagated_def same_static_def)
        then show ?thesis by (simp add: s')
      qed
    qed
  qed
qed

lemma mark_seen_lim [simp]: "trail_lim (mark_seen b ls s) = trail_lim s"
  unfolding mark_seen_def by (rule fold_pres [where P = "\<lambda>t. trail_lim t = trail_lim s"]) simp_all

lemma egp_item_lim:
  assumes "egp_item coop num qlit j st = Some st'"
  shows "trail_lim (fst st') = trail_lim (fst st)"
proof -
  obtain s iv w where st: "st = (s, iv, w)" by (cases st) auto
  show ?thesis
  proof (cases "value s (list_transactions coop num ! j) \<noteq> l_False")
    case False
    with assms show ?thesis
      by (auto simp: egp_item_def st Let_def split: if_splits)
  next
    case True
    obtain a sa iv' where r: "egp_new_reifier s iv = (a, sa, iv')"
      by (cases "egp_new_reifier s iv") auto
    have sa: "trail_lim sa = trail_lim s"
      using r by (auto simp: egp_new_reifier_def newVar_def setDecisionVar_def
          insertVarOrder_def Let_def split: if_splits)
    from assms True r obtain sb sc where
      b: "addClause sa [neg a, qlit] = Some sb"
      and c: "addClause sb [neg a, list_transactions coop num ! j] = Some sc"
      and e: "trail_lim (fst st') = trail_lim sc"
      by (auto simp: egp_item_def st Let_def split: if_splits Option.bind_splits)
    from addClause_lim [OF b] addClause_lim [OF c] sa e show ?thesis by (simp add: st)
  qed
qed

lemma egp_trans_lim:
  assumes "egp_trans coop num st = Some st'"
  shows "trail_lim (fst st') = trail_lim (fst st)"
proof -
  obtain s iv db where st: "st = (s, iv, db)" by (cases st) auto
  from assms obtain s1 iv1 w where
    f: "foldM (egp_item coop num (mkLit (num + nbItems s) False))
          [0 ..< length (list_transactions coop num)] (s, iv, 0) = Some (s1, iv1, w)"
    and e: "fst st' = fold (\<lambda>r s. s\<lparr>occ := (occ s)(var r := wrap32 (occ s (var r) + w))\<rparr>)
              (list_transactions coop num) s1"
    by (auto simp: egp_trans_def st Let_def split: Option.bind_splits)
  have "trail_lim (fst (s1, iv1, w)) = trail_lim s"
    by (rule foldM_pres [where P = "\<lambda>t. trail_lim (fst t) = trail_lim s", OF _ _ f])
       (simp_all add: egp_item_lim)
  moreover have "trail_lim (fst st') = trail_lim s1"
    unfolding e by (rule fold_pres [where P = "\<lambda>t. trail_lim t = trail_lim s1"]) simp_all
  ultimately show ?thesis by (simp add: st)
qed

lemma egp_encode_lim:
  assumes "egp_encode coop p s = Some (s', db)"
  shows "trail_lim s' = trail_lim s"
proof -
  from assms obtain iv where
    f: "foldM (egp_trans coop) (appearTrans coop (var p))
          (s\<lparr>totalWeight := 0\<rparr>, nbItems s + nbTrans s, []) = Some (s', iv, db)"
    by (auto simp: egp_encode_def split: Option.bind_splits)
  have "trail_lim (fst (s', iv, db)) = trail_lim s"
    by (rule foldM_pres [where P = "\<lambda>t. trail_lim (fst t) = trail_lim s", OF _ _ f])
       (simp_all add: egp_trans_lim)
  then show ?thesis by simp
qed

lemma egp_prune_lim:
  assumes "egp_prune coop s = Some s'"
  shows "trail_lim s' = trail_lim s"
proof (rule foldM_pres [where P = "\<lambda>t. trail_lim t = trail_lim s", OF _ _ assms [unfolded egp_prune_def]])
  fix x t t'
  assume t: "trail_lim t = trail_lim s" and e: "egp_prune_item coop x t = Some t'"
  show "trail_lim t' = trail_lim s"
  proof (cases "value t x = l_Undef \<and> occ t (var x) < coop_min_supp coop")
    case True
    with e obtain cf where "propagate (uncheckedEnqueue t (neg x) None) = Some (cf, t')"
      by (auto simp: egp_prune_item_def)
    from propagate_propagated [OF this] t show ?thesis
      by (simp add: propagated_def same_static_def)
  next
    case False
    with e t show ?thesis by (auto simp: egp_prune_item_def)
  qed
qed simp

lemma add_support_constraints_lim:
  assumes "add_support_constraints s num lt its = Some s'"
  shows "trail_lim s' = trail_lim s"
proof -
  from assms obtain s1 s3 s4 where
    a: "(if verbosity s = 1 then addClause s (lt @ [mkLit num True]) else Some s) = Some s1"
    and b: "(if verbosity (mark_seen True lt s1) = 1
             then addClause (mark_seen True lt s1)
                    (filter (\<lambda>x. \<not> seen (mark_seen True lt s1) (var x) \<and>
                                 value (mark_seen True lt s1) x \<noteq> l_False) its
                     @ [mkLit num False])
             else Some (mark_seen True lt s1)) = Some s3"
    and c: "foldM (support_binary num) its s3 = Some s4"
    and d: "s' = mark_seen False lt s4"
    by (auto simp: add_support_constraints_def Let_def split: Option.bind_splits)
  have 1: "trail_lim s1 = trail_lim s" using a addClause_lim by (auto split: if_splits)
  have 3: "trail_lim s3 = trail_lim s1" using b addClause_lim [of "mark_seen True lt s1"]
    by (auto split: if_splits)
  have 4: "trail_lim s4 = trail_lim s3"
    by (rule foldM_pres [where P = "\<lambda>t. trail_lim t = trail_lim s3", OF _ _ c])
       (auto simp: support_binary_def dest: addClause_lim split: if_splits)
  show ?thesis using 1 3 4 d by simp
qed

lemma add_closure_constraints_lim:
  "add_closure_constraints_item s q db app = Some s' \<Longrightarrow> trail_lim s' = trail_lim s"
  "add_closure_constraints s db app = Some s' \<Longrightarrow> trail_lim s' = trail_lim s"
  by (auto simp: add_closure_constraints_item_def add_closure_constraints_def Let_def
      dest!: addClause_lim split: Option.bind_splits)

lemma egp_constraints_lim:
  assumes "egp_constraints coop index p db s = Some s'"
  shows "trail_lim s' = trail_lim s"
proof (cases "coop_min_supp coop \<le> totalWeight s")
  case False
  with assms show ?thesis by (simp add: egp_constraints_def)
next
  case True
  from assms True obtain s1 where
    a: "foldM (\<lambda>num s. add_support_constraints s (num + nbItems s)
                                (list_transactions coop num) (items s))
                (appearTrans coop (var p)) s = Some s1"
    and r: "(if enum_clos coop = 1
        then do {
          s2 \<leftarrow> foldM (\<lambda>q s. if value s q \<noteq> l_True
                             then add_closure_constraints_item s q db (local_trans s (var q))
                             else Some s)
                  (items s1) s1;
          foldM (\<lambda>i s. let q = allItems s ! i
                        in if coop_min_supp coop \<le> occ s (var q)
                           then add_closure_constraints s db (local_trans s (var q))
                           else Some s)
            [div_begining coop ..< index - 1] s2
        }
        else Some s1) = Some s'"
    by (auto simp: egp_constraints_def split: Option.bind_splits)
  have 1: "trail_lim s1 = trail_lim s"
    by (rule foldM_pres [where P = "\<lambda>t. trail_lim t = trail_lim s", OF _ _ a])
       (auto dest: add_support_constraints_lim)
  show ?thesis
  proof (cases "enum_clos coop = 1")
    case False
    with r 1 show ?thesis by simp
  next
    case True
    with r obtain s2 where
      b: "foldM (\<lambda>q s. if value s q \<noteq> l_True
                             then add_closure_constraints_item s q db (local_trans s (var q))
                             else Some s) (items s1) s1 = Some s2"
      and c: "foldM (\<lambda>i s. let q = allItems s ! i
                        in if coop_min_supp coop \<le> occ s (var q)
                           then add_closure_constraints s db (local_trans s (var q))
                           else Some s) [div_begining coop ..< index - 1] s2 = Some s'"
      by (auto split: Option.bind_splits)
    have 2: "trail_lim s2 = trail_lim s1"
      by (rule foldM_pres [where P = "\<lambda>t. trail_lim t = trail_lim s1", OF _ _ b])
         (auto dest: add_closure_constraints_lim split: if_splits)
    have 3: "trail_lim s' = trail_lim s2"
      by (rule foldM_pres [where P = "\<lambda>t. trail_lim t = trail_lim s2", OF _ _ c])
         (auto simp: Let_def dest: add_closure_constraints_lim split: if_splits)
    show ?thesis using 1 2 3 by simp
  qed
qed

lemma egp_heap_lim [simp]: "trail_lim (egp_heap n s) = trail_lim s"
proof -
  have "trail_lim (fold (\<lambda>q s. if value s q = l_Undef
                           then s\<lparr>activity := (activity s)(var q :=
                                   real_of_int (int n - int (length (local_trans s (var q)))))\<rparr>
                           else s) (items s) s) = trail_lim s"
    by (rule fold_pres [where P = "\<lambda>t. trail_lim t = trail_lim s"]) simp_all
  then show ?thesis by (simp add: egp_heap_def Let_def)
qed

lemma egp_clear_lim [simp]: "trail_lim (egp_clear s) = trail_lim s"
  unfolding egp_clear_def
  by (rule fold_pres [where P = "\<lambda>t. trail_lim t = trail_lim s"]) simp_all

lemma egp_path_lim [simp]: "trail_lim (egp_path s index) = trail_lim s"
proof -
  have "trail_lim (fold egp_path_step [0 ..< index - 1] s) = trail_lim s"
    by (rule fold_pres [where P = "\<lambda>t. trail_lim t = trail_lim s"])
       (simp_all add: egp_path_step_def)
  then show ?thesis by (simp add: egp_path_def Let_def)
qed

lemma encodeGuidingPath_lim:
  assumes g: "\<And>t. trail_lim (garbage t) = trail_lim t"
    and e: "encodeGuidingPath garbage coop index s = Some (b, s')"
  shows "trail_lim s' = trail_lim s"
proof (cases "wocc coop (var (allItems s ! (index - 1))) < coop_min_supp coop")
  case True
  with e show ?thesis by (auto simp: encodeGuidingPath_def Let_def)
next
  case False
  define p where "p = allItems s ! (index - 1)"
  define s1 where "s1 = egp_path (s\<lparr>items := []\<rparr>) index"
  from e False have c: "egp_continue garbage coop index p s1 = Some (b, s')"
    by (simp add: encodeGuidingPath_def Let_def p_def s1_def)
  then obtain s2 db s4 s5 where
    2: "egp_encode coop p s1 = Some (s2, db)"
    and 4: "egp_prune coop (egp_unsee index s2) = Some s4"
    and 5: "egp_constraints coop index p db s4 = Some s5"
    and 6: "s' = garbage (egp_clear (egp_heap (length (appearTrans coop (var p))) s5))"
    by (auto simp: egp_continue_def Let_def split: Option.bind_splits)
  have "trail_lim s1 = trail_lim s" by (simp add: s1_def)
  moreover have "trail_lim (egp_unsee index s2) = trail_lim s2" by (simp add: egp_unsee_def)
  ultimately show ?thesis
    using egp_encode_lim [OF 2] egp_prune_lim [OF 4] egp_constraints_lim [OF 5] g
    by (simp add: 6)
qed


lemma search_advance_lim:
  assumes g: "\<And>t. trail_lim (garbage t) = trail_lim t"
    and a: "search_advance garbage coop s = Some s'"
  shows "trail_lim s' = trail_lim s"
proof -
  have "(\<forall>t. trail_lim (garbage t) = trail_lim t) \<longrightarrow> trail_lim s' = trail_lim s"
  proof (rule search_advance.raw_induct
      [where P = "\<lambda>garbage coop s s'. (\<forall>t. trail_lim (garbage t) = trail_lim t) \<longrightarrow>
                     trail_lim s' = trail_lim s", OF _ a])
    fix adv :: "(solver \<Rightarrow> solver) \<Rightarrow> cooperation \<Rightarrow> solver \<Rightarrow> solver option"
      and garbage coop s s'
    assume IH: "\<And>g c s y. adv g c s = Some y \<Longrightarrow>
                  (\<forall>t. trail_lim (g t) = trail_lim t) \<longrightarrow> trail_lim y = trail_lim s"
      and eq: "(if ind s < length (allItems s)
        then Option.bind (encodeGuidingPath garbage coop (ind s + 1) s)
               (\<lambda>r. if \<not> fst r
                    then adv garbage coop ((snd r)\<lparr>ind := ind (snd r) + nbThreads coop\<rparr>)
                    else Some (snd r))
        else Some s) = Some s'"
    show "(\<forall>t. trail_lim (garbage t) = trail_lim t) \<longrightarrow> trail_lim s' = trail_lim s"
    proof
      assume gg: "\<forall>t. trail_lim (garbage t) = trail_lim t"
      show "trail_lim s' = trail_lim s"
      proof (cases "ind s < length (allItems s)")
        case False
        with eq show ?thesis by simp
      next
        case True
        with eq have "Option.bind (encodeGuidingPath garbage coop (ind s + 1) s)
               (\<lambda>r. if \<not> fst r
                    then adv garbage coop ((snd r)\<lparr>ind := ind (snd r) + nbThreads coop\<rparr>)
                    else Some (snd r)) = Some s'"
          by (simp only: if_True)
        then obtain x where x: "encodeGuidingPath garbage coop (ind s + 1) s = Some x"
          and rx: "(if \<not> fst x
                    then adv garbage coop ((snd x)\<lparr>ind := ind (snd x) + nbThreads coop\<rparr>)
                    else Some (snd x)) = Some s'"
          by (cases "encodeGuidingPath garbage coop (ind s + 1) s") simp_all
        obtain b s1 where bs: "x = (b, s1)" by (cases x) auto
        have e: "encodeGuidingPath garbage coop (ind s + 1) s = Some (b, s1)"
          using x by (simp add: bs)
        have r: "(if \<not> b then adv garbage coop (s1\<lparr>ind := ind s1 + nbThreads coop\<rparr>)
                   else Some s1) = Some s'"
          using rx unfolding bs fst_conv snd_conv .
        have 1: "trail_lim s1 = trail_lim s"
          using encodeGuidingPath_lim [OF _ e] gg by simp
        show ?thesis
        proof (cases b)
          case True
          with r 1 show ?thesis by simp
        next
          case False
          with r have "adv garbage coop (s1\<lparr>ind := ind s1 + nbThreads coop\<rparr>) = Some s'" by simp
          from IH [OF this] gg 1 show ?thesis by simp
        qed
      qed
    qed
  qed
  with g show ?thesis by simp
qed

lemma reduceDB_lim [simp]: "trail_lim (reduceDB s) = trail_lim s"
proof -
  have "trail_lim (fold (\<lambda>cr s. removeClause s cr) (clauses s) s) = trail_lim s"
    by (rule fold_pres [where P = "\<lambda>t. trail_lim t = trail_lim s"])
       (simp_all add: removeClause_def detachClause_def smudge_def Let_def)
  then show ?thesis by (simp add: reduceDB_def reduceDB_loop_fold [of 0])
qed

text \<open>The invariant holds at the start of a search at level 0, and every step keeps it.\<close>

lemma search_undivide_facts [simp]:
  "diviser_state (search_undivide s) = 0" "decisionLevel (search_undivide s) = 0"
  "ok (search_undivide s) = ok s"
  by (simp_all add: search_undivide_def cancelAll_frame decisionLevel_def)

lemma search_flip_frame [simp]:
  "ok (search_flip s) = ok s" "diviser_state (search_flip s) = diviser_state s"
  by (simp_all add: search_flip_def Let_def cancelUntil_frame)

lemma search_assume_facts:
  "(case search_assume s of (ctl, nxt, s') \<Rightarrow>
      ok s' = ok s \<and>
      (ctl = Div_section \<and> diviser_state s' = 0 \<and> decisionLevel s' = 0 \<or>
       ctl = Prop \<and> diviser_state s' = diviser_state s))"
proof (induction s rule: search_assume.induct)
  case (1 s)
  show ?case
  proof (cases "decisionLevel s < length (assumptions s)")
    case False
    then show ?thesis by (subst search_assume.simps) simp
  next
    case d: True
    let ?p = "assumptions s ! decisionLevel s"
    show ?thesis
    proof (cases "value s ?p = l_True")
      case True
      have "search_assume s = search_assume (newDecisionLevel s)"
        using d True by (subst search_assume.simps) (simp add: Let_def)
      moreover have "ok (newDecisionLevel s) = ok s"
        "diviser_state (newDecisionLevel s) = diviser_state s"
        by (simp_all add: newDecisionLevel_def)
      ultimately show ?thesis using "1.IH" [OF d refl True]
        by (auto split: prod.splits)
    next
      case nt: False
      show ?thesis
      proof (cases "value s ?p = l_False")
        case True
        then have "search_assume s = (Div_section, None, search_undivide (cancelUntil s 0))"
          using d by (subst search_assume.simps) (simp add: Let_def)
        then show ?thesis by (simp add: cancelUntil_frame)
      next
        case False
        then have "search_assume s = (Prop, Some ?p, s)"
          using d nt by (subst search_assume.simps) (simp add: Let_def)
        then show ?thesis by simp
      qed
    qed
  qed
qed

lemma pickBranchLit_loop_frame:
  "ok (snd (pickBranchLit_loop s next)) = ok s \<and>
   diviser_state (snd (pickBranchLit_loop s next)) = diviser_state s \<and>
   trail_lim (snd (pickBranchLit_loop s next)) = trail_lim s"
proof (induction s "next" rule: pickBranchLit_loop.induct)
  case (1 s nxt)
  let ?search = "(case nxt of None \<Rightarrow> True
          | Some v \<Rightarrow> value_var s v \<noteq> l_Undef \<or> \<not> decision s v)"
  show ?case
  proof (cases "?search \<and> order_heap s \<noteq> []")
    case True
    then have "pickBranchLit_loop s nxt =
        pickBranchLit_loop (s\<lparr>order_heap := snd (removeMin (activity s) (order_heap s))\<rparr>)
          (Some (fst (removeMin (activity s) (order_heap s))))"
      by (subst pickBranchLit_loop.simps) simp
    with "1.IH" True show ?thesis by simp
  next
    case False
    then have "snd (pickBranchLit_loop s nxt) = s"
      by (subst pickBranchLit_loop.simps) auto
    then show ?thesis by simp
  qed
qed

lemma pickBranchLit_frame [simp]:
  "ok (snd (pickBranchLit s)) = ok s"
  "diviser_state (snd (pickBranchLit s)) = diviser_state s"
  "decisionLevel (snd (pickBranchLit s)) = decisionLevel s"
  using pickBranchLit_loop_frame [of s None]
  by (simp_all add: pickBranchLit_def Let_def decisionLevel_def)

lemma search_inv_start: "decisionLevel s = 0 \<Longrightarrow> search_inv Prop s"
  by (simp add: search_inv_def)

lemma search_decide_inv:
  assumes "ok s" "diviser_state s \<noteq> 0"
  shows "search_inv (fst (search_decide s)) (snd (search_decide s))"
proof -
  obtain ctl nxt s1 where a: "search_assume s = (ctl, nxt, s1)"
    by (cases "search_assume s") auto
  from search_assume_facts [of s] a have f: "ok s1"
    "ctl = Div_section \<and> diviser_state s1 = 0 \<and> decisionLevel s1 = 0 \<or>
     ctl = Prop \<and> diviser_state s1 \<noteq> 0"
    using assms by auto
  show ?thesis
  proof (cases ctl)
    case Div_section
    with a f show ?thesis by (simp add: search_decide_def search_inv_def split: option.splits)
  next
    case (Return b)
    with f show ?thesis by simp
  next
    case Prop
    with f have d: "diviser_state s1 \<noteq> 0" by simp
    show ?thesis
    proof (cases nxt)
      case (Some p)
      with a Prop f(1) d show ?thesis
        by (simp add: search_decide_def search_inv_def newDecisionLevel_def)
    next
      case None
      let ?r = "pickBranchLit (s1\<lparr>decisions := decisions s1 + 1\<rparr>)"
      show ?thesis
      proof (cases "fst ?r")
        case (Some p)
        with a Prop None f(1) d show ?thesis
          by (simp add: search_decide_def search_inv_def Let_def newDecisionLevel_def)
      next
        case n: None
        with a Prop None f(1) d show ?thesis
          by (simp add: search_decide_def search_inv_def Let_def)
      qed
    qed
  qed
qed

lemma search_step_inv:
  assumes g: "\<And>t. trail_lim (garbage t) = trail_lim t"
    and i: "search_inv ctl s"
    and st: "search_step garbage coop ctl s = Some (ctl', s')"
  shows "search_inv ctl' s'"
proof (cases ctl)
  case (Return b)
  with st show ?thesis by (auto simp: search_step_def search_inv_def)
next
  case Prop
  with i have i1: "ok s \<or> decisionLevel s = 0" "diviser_state s = 0 \<longrightarrow> decisionLevel s = 0"
    by (simp_all add: search_inv_def)
  from st Prop obtain confl s1 where p: "propagate s = Some (confl, s1)"
    by (auto simp: search_step_def search_prop_def split: option.splits)
  from propagate_propagated [OF p] have f: "ok s1 = ok s" "decisionLevel s1 = decisionLevel s"
    "diviser_state s1 = diviser_state s"
    by (simp_all add: propagated_def same_static_def decisionLevel_def)
  from st Prop p show ?thesis using i1 f
    by (auto simp: search_step_def search_prop_def search_inv_def Let_def split: if_splits)
next
  case Div_section
  with i have i1: "diviser_state s \<noteq> 0 \<longrightarrow> ok s" "diviser_state s = 0 \<longrightarrow> decisionLevel s = 0"
    by (simp_all add: search_inv_def)
  from st Div_section have d: "search_div_section garbage coop s = Some (ctl', s')"
    by (simp add: search_step_def)
  show ?thesis
  proof (cases "diviser_state s = 0")
    case True
    show ?thesis
    proof (cases "ind s < length (allItems s)")
      case False
      with d True show ?thesis by (auto simp: search_div_section_def search_inv_def)
    next
      case n: True
      with d True obtain s1 where
        a: "search_advance garbage coop (reduceDB (s\<lparr>ok := True\<rparr>)) = Some s1"
        and r: "(if ind s1 \<ge> length (allItems s1) then Some (Return l_False, s1)
              else Some (Prop, s1\<lparr>diviser_state := 1, ind := ind s1 + nbThreads coop\<rparr>)) =
              Some (ctl', s')"
        by (auto simp: search_div_section_def split: Option.bind_splits)
      from search_advance_lim [OF g a] i1 True have "decisionLevel s1 = 0"
        by (simp add: decisionLevel_def)
      with r show ?thesis by (auto simp: search_inv_def decisionLevel_def split: if_splits)
    qed
  next
    case False
    with i1 have ok: "ok s" by simp
    show ?thesis
    proof (cases "totalWeight s < coop_min_supp coop")
      case True
      with d False ok show ?thesis
        by (auto simp: search_div_section_def search_inv_def Let_def split: if_splits)
    next
      case w: False
      with d False have "search_decide s = (ctl', s')" by (simp add: search_div_section_def)
      with search_decide_inv [OF ok False] show ?thesis by simp
    qed
  qed
qed


lemma search_run_inv:
  assumes g: "\<forall>t. trail_lim (garbage t) = trail_lim t"
  shows "search_inv ctl s \<Longrightarrow> search_run garbage coop n ctl s = Some (ctl', s') \<Longrightarrow>
         search_inv ctl' s'"
proof (induction n arbitrary: ctl s)
  case 0
  then show ?case by simp
next
  case (Suc n)
  from Suc.prems(2) obtain c1 s1 where
    st: "search_step garbage coop ctl s = Some (c1, s1)"
    and r: "search_run garbage coop n c1 s1 = Some (ctl', s')"
    by (auto split: option.splits)
  from search_step_inv [OF _ Suc.prems(1) st] g have "search_inv c1 s1" by simp
  from Suc.IH [OF this r] show ?case .
qed

lemma unassigned_from_cong:
  "trail s' = trail s \<Longrightarrow> assigns s' = assigns s \<Longrightarrow> unassigned_from s' = unassigned_from s"
  by (intro ext) (simp add: unassigned_from_def)

lemma search_flip_assigns:
  assumes "0 < decisionLevel s"
  shows "assigns (search_flip s) =
           (unassigned_from s (last (trail_lim s)))
             (var (trail s ! last (trail_lim s)) := lbool_of (sign (trail s ! last (trail_lim s))))"
    and "qhead (search_flip s) = last (trail_lim s)"
proof -
  from assms have ne: "trail_lim s \<noteq> []" by (simp add: decisionLevel_def)
  then have l: "trail_lim s ! (length (trail_lim s) - Suc 0) = last (trail_lim s)"
    by (simp add: last_conv_nth)
  have d: "decisionLevel s - Suc 0 < decisionLevel s" using assms by simp
  have l2: "trail_lim s ! (decisionLevel s - Suc 0) = last (trail_lim s)"
    using l by (simp add: decisionLevel_def)
  note c = cancelUntil_closed(2,5) [OF d]
  show "assigns (search_flip s) =
           (unassigned_from s (last (trail_lim s)))
             (var (trail s ! last (trail_lim s)) := lbool_of (sign (trail s ! last (trail_lim s))))"
    by (simp add: search_flip_def Let_def l c l2 neg_def)
  show "qhead (search_flip s) = last (trail_lim s)"
    by (simp add: search_flip_def Let_def c l2)
qed

text \<open>
  Claim C2. In a search started at decision level 0, at any pass through the top of the
  loop where \<^verbatim>\<open>propagate\<close> returns a conflict: above level 0 the solver goes back
  exactly one level and enqueues the negation of the literal at trail position
  \<^verbatim>\<open>trail_lim.last()\<close>, without reason, at the new level; every other variable assigned
  from that position on is un-assigned, the trail is cut there and \<^verbatim>\<open>qhead\<close> points
  at the new literal; the loop goes on at \<^verbatim>\<open>Prop\<close>. At level 0 the solver sets
  \<^verbatim>\<open>diviser_state\<close> to 0, un-assigns the whole trail and clears it, and jumps to
  \<^verbatim>\<open>div_section\<close>. In both cases the learnt clauses, the clause list and the arena are as
  \<^verbatim>\<open>propagate\<close> left them.
\<close>

theorem search_conflict_backtracks_one_level:
  assumes "\<forall>t. trail_lim (garbage t) = trail_lim t"
    and "decisionLevel s0 = 0"
    and "search_run garbage coop n Prop s0 = Some (Prop, s)"
    and "propagate s = Some (confl, s1)" and "confl \<noteq> None"
  shows "\<exists>s'. search_step garbage coop Prop s =
                 Some (if decisionLevel s1 = 0 then Div_section else Prop, s') \<and>
              learnts s' = learnts s1 \<and> clauses s' = clauses s1 \<and> ca s' = ca s1 \<and>
              (if decisionLevel s1 = 0
               then diviser_state s' = 0 \<and> trail s' = [] \<and> trail_lim s' = [] \<and> qhead s' = 0 \<and>
                    assigns s' = unassigned_from s1 0
               else decisionLevel s' = decisionLevel s1 - 1 \<and>
                    trail_lim s' = butlast (trail_lim s1) \<and>
                    trail s' = take (last (trail_lim s1)) (trail s1) @
                               [neg (trail s1 ! last (trail_lim s1))] \<and>
                    qhead s' = last (trail_lim s1) \<and>
                    assigns s' =
                      (unassigned_from s1 (last (trail_lim s1)))
                        (var (trail s1 ! last (trail_lim s1)) :=
                           lbool_of (sign (trail s1 ! last (trail_lim s1)))) \<and>
                    value s' (neg (trail s1 ! last (trail_lim s1))) = l_True \<and>
                    reason s' (var (trail s1 ! last (trail_lim s1))) = None \<and>
                    level s' (var (trail s1 ! last (trail_lim s1))) = decisionLevel s1 - 1)"
proof -
  have "search_inv Prop s"
    using search_run_inv [OF assms(1) search_inv_start [OF assms(2)] assms(3)] .
  then have i: "ok s \<or> decisionLevel s = 0" by (simp add: search_inv_def)
  from propagate_propagated [OF assms(4)] have "ok s1 = ok s" "decisionLevel s1 = decisionLevel s"
    by (simp_all add: propagated_def same_static_def decisionLevel_def)
  with i have ok1: "ok s1 \<or> decisionLevel s1 = 0" by simp
  define s2 where "s2 = s1\<lparr>conflicts := conflicts s1 + 1\<rparr>"
  have f: "decisionLevel s2 = decisionLevel s1" "trail s2 = trail s1"
    "trail_lim s2 = trail_lim s1" "learnts s2 = learnts s1" "clauses s2 = clauses s1"
    "ca s2 = ca s1" "assigns s2 = assigns s1"
    by (simp_all add: s2_def)
  have u: "unassigned_from s2 = unassigned_from s1"
    by (rule unassigned_from_cong) (simp_all add: f)
  have p: "search_step garbage coop Prop s =
      (if decisionLevel s2 = 0 then Some (Div_section, search_undivide s2)
       else Some (Prop, search_flip s2))"
    using assms(4,5) ok1 by (auto simp: search_step_def search_prop_def Let_def s2_def)
  show ?thesis
  proof (cases "decisionLevel s1 = 0")
    case True
    have "search_step garbage coop Prop s = Some (Div_section, search_undivide s2)"
      using True by (simp add: p f)
    moreover have "assigns (search_undivide s2) = unassigned_from s1 0"
      unfolding search_undivide_def cancelAll_closed(2)
      by (rule arg_cong [where f = "\<lambda>g. g 0"], rule unassigned_from_cong) (simp_all add: f)
    ultimately show ?thesis using True
      by (simp add: search_undivide_def cancelAll_frame f)
  next
    case False
    then have pos: "0 < decisionLevel s2" by (simp add: f)
    have "search_step garbage coop Prop s = Some (Prop, search_flip s2)"
      using False by (simp add: p f)
    then show ?thesis using False search_flip_facts [OF pos] search_flip_assigns [OF pos]
      by (simp add: f u)
  qed
qed


text \<open>
  The theorem at the example: after two steps the search has decided \<open>x0\<close>; \<^verbatim>\<open>propagate\<close>
  sets \<open>x1\<close> and returns the second clause; the step un-assigns both and enqueues
  \<open>\<not>x0\<close> at level 0.
\<close>

lemmas propagate_defs = propagate_def cleanAll_def propagate_loop.simps propagate_lit_def
  arrange_def propagate_watchers.simps propagate_watcher_def set_lits_def value_def Let_def
  uncheckedEnqueue_def decisionLevel_def

theorem search_conflict_backtracks_one_level_witness:
  "decisionLevel branch_conflict_example = 0 \<and>
   (\<exists>s s1 s'. search_run (\<lambda>s. s) coop_example 2 Prop branch_conflict_example = Some (Prop, s) \<and>
      trail s = [mkLit 0 False] \<and> decisionLevel s = 1 \<and>
      propagate s = Some (Some 1, s1) \<and>
      trail s1 = [mkLit 0 False, mkLit 1 False] \<and> decisionLevel s1 = 1 \<and> qhead s1 = 2 \<and>
      assigns s1 1 = l_True \<and>
      search_step (\<lambda>s. s) coop_example Prop s = Some (Prop, s') \<and>
      decisionLevel s' = 0 \<and> trail s' = [mkLit 0 True] \<and> qhead s' = 0 \<and>
      assigns s' 0 = l_False \<and> assigns s' 1 = l_Undef \<and>
      learnts s' = learnts s1 \<and> clauses s' = clauses s1 \<and> ca s' = ca s1)"
proof -
  have g: "\<forall>t. trail_lim ((\<lambda>s. s) t) = trail_lim t" by simp
  have d: "decisionLevel branch_conflict_example = 0"
    by (simp add: decisionLevel_def branch_conflict_example_def init_solver_def)
  have "\<exists>s. search_run (\<lambda>s. s) coop_example 2 Prop branch_conflict_example = Some (Prop, s) \<and>
      trail s = [mkLit 0 False] \<and> trail_lim s = [0] \<and>
      (\<exists>s1. propagate s = Some (Some 1, s1) \<and>
        trail s1 = [mkLit 0 False, mkLit 1 False] \<and> trail_lim s1 = [0] \<and> qhead s1 = 2 \<and>
        assigns s1 = (\<lambda>_. l_Undef)(0 := l_True, 1 := l_True))"
    by (simp add: eval_nat_numeral search_step_def search_prop_def search_div_section_def
        search_decide_def search_assume.simps pickBranchLit_def pickBranchLit_loop.simps
        removeMin_def value_var_def newDecisionLevel_def propagate_defs
        branch_conflict_example_def coop_example_def init_solver_def)
  then obtain s s1 where
    r: "search_run (\<lambda>s. s) coop_example 2 Prop branch_conflict_example = Some (Prop, s)"
    and s: "trail s = [mkLit 0 False]" "trail_lim s = [0]"
    and p: "propagate s = Some (Some 1, s1)"
    and s1: "trail s1 = [mkLit 0 False, mkLit 1 False]" "trail_lim s1 = [0]" "qhead s1 = 2"
      "assigns s1 = (\<lambda>_. l_Undef)(0 := l_True, 1 := l_True)"
    by blast
  have ne: "Some (1::nat) \<noteq> None" by simp
  have l: "decisionLevel s1 = 1" "decisionLevel s = 1" using s s1 by (simp_all add: decisionLevel_def)
  from search_conflict_backtracks_one_level [OF g d r p ne]
  obtain s' where "search_step (\<lambda>s. s) coop_example Prop s = Some (Prop, s')"
    "decisionLevel s' = 0" "trail s' = [mkLit 0 True]" "qhead s' = 0"
    "assigns s' 0 = l_False" "assigns s' 1 = l_Undef"
    "learnts s' = learnts s1" "clauses s' = clauses s1" "ca s' = ca s1"
    using s1 l by (auto simp: unassigned_from_def)
  with d r s(1) p s1 l show ?thesis by (intro conjI exI [of _ s] exI [of _ s1] exI [of _ s']) simp_all
qed

end
